theory Spec2Isabelle
  imports Complex_Main "HOL-Library.AList" "HOL-Library.Multiset"
begin

section \<open>Data model of fundity_sdk.py\<close>

text \<open>
  A Python \<open>dict\<close> keeps its keys in insertion order and the pair enumeration of
  \<open>find_arbitrage_opportunities\<close> depends on that order, so a dict is an association
  list. A list that stands for a dict has pairwise distinct keys; theorems that depend on
  it say so (\<open>distinct (map fst d)\<close>).

  A Python \<open>float\<close> is an IEEE double. A finite double is modelled by the real number it
  denotes, and the arithmetic on doubles is written out with its rounding (section on
  float arithmetic below). The rates and spreads the client computes are finite; the
  argument \<open>min_spread\<close> is any float, so it has the type \<open>pyfloat\<close>.
\<close>

type_synonym ('k, 'v) dict = "('k \<times> 'v) list"

text \<open>The values behind the annotation \<open>Any\<close>.\<close>

datatype json = JNull | JBool bool | JInt int | JStr string
  | JArr "json list" | JObj "(string \<times> json) list"

text \<open>The dataclass \<open>FundingRatesData\<close>, fields at their annotated types.\<close>

record FundingRatesData =
  symbols :: "string list"
  exchanges :: "(string, json) dict"
  funding_rates :: "(string, (string, int) dict) dict"
  oi_rankings :: "(string, string) dict"
  default_oi_rank :: string
  timestamp :: string

text \<open>
  The exceptions that matter to the \<open>try\<close> of \<open>get_funding_rates\<close> and to the float
  arithmetic. A constructor
  stands for a class with its subclasses and carries \<open>str(e)\<close>. An \<open>except\<close> clause
  matches by class and the first matching clause wins, so an exception that inherits
  from \<open>RequestException\<close> (\<open>HTTPError\<close>, \<open>ConnectionError\<close>, \<open>Timeout\<close>, and the
  \<open>JSONDecodeError\<close> of requests, which also inherits from \<open>ValueError\<close>) is a
  \<open>RequestException\<close> here.
\<close>

datatype py_exception =
    RequestException string
  | KeyError string
  | ValueError string
  | AttributeError string
  | OverflowError string
  | onlyfundingError string

text \<open>
  The dict \<open>data\<close> that \<open>response.json()\<close> returns for a JSON object: each of the six
  keys the client reads is absent (\<open>None\<close>) or present with a value of the annotated
  type. The code does not validate the values, so a present value of another type is
  outside the model.
\<close>

record payload =
  symbols_entry :: "string list option"
  exchanges_entry :: "(string, json) dict option"
  funding_rates_entry :: "(string, (string, int) dict) dict option"
  oi_rankings_entry :: "(string, string) dict option"
  default_oi_rank_entry :: "string option"
  timestamp_entry :: "string option"

text \<open>
  What \<open>response.json()\<close> returns: a JSON object, or a value of another Python type
  (\<open>list\<close>, \<open>str\<close>, \<open>int\<close>, \<open>float\<close>, \<open>bool\<close>, \<open>NoneType\<close>; the constructor
  carries the type's name), which has no method \<open>get\<close>.
\<close>

datatype decoded = JSONObject payload | JSONOther string

text \<open>
  The response object of requests, as far as the client looks at it: the status code,
  and what the call \<open>response.json()\<close> does (raise, or return the decoded body).
\<close>

record response =
  status_code :: nat
  json_result :: "py_exception + decoded"

text \<open>What \<open>self.session.get(...)\<close> does: raise, or return a response.\<close>

type_synonym http_result = "py_exception + response"

text \<open>The dict literal of an opportunity, one field per key.\<close>

record opportunity =
  symbol :: string
  exchange1 :: string
  rate1 :: real
  exchange2 :: string
  rate2 :: real
  spread :: real
  long_exchange :: string
  short_exchange :: string

section \<open>Library operations the client calls\<close>

text \<open>
  \<open>Response.raise_for_status\<close> of requests raises \<open>HTTPError\<close>, a
  \<open>RequestException\<close>, when the status code is a client error (400 to 499) or a server
  error (500 to 599), and returns otherwise. The message of the library names the code,
  the reason phrase and the URL; the model keeps the two kinds of message.
\<close>

definition raise_for_status :: "response \<Rightarrow> py_exception + unit" where
  "raise_for_status r =
     (if 400 \<le> status_code r \<and> status_code r < 500
        then Inl (RequestException ''Client Error'')
      else if 500 \<le> status_code r \<and> status_code r < 600
        then Inl (RequestException ''Server Error'')
      else Inr ())"

text \<open>\<open>d.get(key, default)\<close>, on the entry of the key.\<close>

definition get_default :: "'a option \<Rightarrow> 'a \<Rightarrow> 'a" where
  "get_default entry dflt = (case entry of None \<Rightarrow> dflt | Some v \<Rightarrow> v)"

text \<open>\<open>d[key]\<close>: the value of the key, \<open>KeyError\<close> when the key is absent.\<close>

definition subscript :: "(string, 'v) dict \<Rightarrow> string \<Rightarrow> py_exception + 'v" where
  "subscript d k = (case map_of d k of None \<Rightarrow> Inl (KeyError k) | Some v \<Rightarrow> Inr v)"

text \<open>
  \<open>xs.sort(key=key, reverse=True)\<close>: the list is reversed, sorted stably in ascending
  order of the key and reversed again, so that elements with equal keys keep their
  original order. \<open>sort_key\<close> is the stable insertion sort of the list library.
\<close>

definition sort_reverse :: "('a \<Rightarrow> real) \<Rightarrow> 'a list \<Rightarrow> 'a list" where
  "sort_reverse key xs = rev (sort_key key (rev xs))"

section \<open>Float arithmetic\<close>

text \<open>
  A float as an argument: a finite number, an infinity or \<open>nan\<close>. \<open>Finite x\<close> also
  stands for an \<open>int\<close> argument \<open>x\<close>, which Python compares with a float exactly.
\<close>

datatype pyfloat = Finite real | PosInf | NegInf | NaN

text \<open>\<open>n.bit_length()\<close> of a natural number.\<close>

fun bit_length :: "nat \<Rightarrow> nat" where
  "bit_length n = (if n = 0 then 0 else Suc (bit_length (n div 2)))"

declare bit_length.simps [simp del]

text \<open>
  The integer nearest to \<open>p / q\<close> for \<open>0 \<le> p\<close> and \<open>0 < q\<close>, a tie going to the even
  one: the rounding mode of IEEE arithmetic and of the conversion of an \<open>int\<close>.
\<close>

definition round_half_even :: "int \<Rightarrow> int \<Rightarrow> int" where
  "round_half_even p q =
     (let d = p div q; m = p mod q
      in if 2 * m < q then d
         else if q < 2 * m then d + 1
         else if even d then d else d + 1)"

text \<open>
  An \<open>int\<close> rounded to 53 significant bits: the double nearest to it, which is a whole
  number. Up to 53 bits the \<open>int\<close> is a double itself.
\<close>

definition nearest_double :: "int \<Rightarrow> int" where
  "nearest_double r =
     (let b = bit_length (nat \<bar>r\<bar>)
      in if b \<le> 53 then r
         else sgn r * (round_half_even \<bar>r\<bar> (2 ^ (b - 53)) * 2 ^ (b - 53)))"

text \<open>
  The conversion of an \<open>int\<close> to a float (\<open>PyLong_AsDouble\<close>), which Python applies to
  the \<open>int\<close> operand of \<open>int / float\<close>. It raises \<open>OverflowError\<close> when the \<open>int\<close> rounds
  to \<open>2 ^ 1024\<close> or beyond. The largest double is \<open>2 ^ 1024 - 2 ^ 971\<close>, and the midpoint
  \<open>2 ^ 1024 - 2 ^ 970\<close> rounds up, to the even significand: the conversion raises from
  that magnitude on.
\<close>

definition too_large :: "int \<Rightarrow> bool" where
  "too_large r = (2 ^ 1024 - 2 ^ 970 \<le> \<bar>r\<bar>)"

definition overflow_error :: py_exception where
  "overflow_error = OverflowError ''int too large to convert to float''"

definition int_to_float :: "int \<Rightarrow> py_exception + int" where
  "int_to_float r = (if too_large r then Inl overflow_error else Inr (nearest_double r))"

text \<open>
  \<open>floor_log2 p b\<close> is the exponent of the quotient \<open>p / b\<close>, for \<open>0 < p\<close> and \<open>0 < b\<close>:
  the \<open>f\<close> with \<open>2 ^ f \<le> p / b < 2 ^ (f + 1)\<close>. It is the difference \<open>k\<close> of the bit
  lengths or \<open>k - 1\<close>.
\<close>

definition floor_log2 :: "int \<Rightarrow> int \<Rightarrow> int" where
  "floor_log2 p b =
     (let k = int (bit_length (nat p)) - int (bit_length (nat b))
      in if (if 0 \<le> k then b * 2 ^ nat k \<le> p else b \<le> p * 2 ^ nat (- k))
         then k else k - 1)"

text \<open>
  The division \<open>a / b\<close> of two doubles that are whole numbers, \<open>0 < b\<close>: the quotient
  rounded to 53 significant bits, ties to even. With \<open>e\<close> the exponent of the last of
  the 53 bits, the result is \<open>n * 2 ^ e\<close> for the integer \<open>n\<close> nearest to the quotient
  scaled by \<open>2 ^ e\<close>. The client divides by \<open>10000.0\<close> only, and \<open>\<bar>a\<bar> < 2 ^ 1024\<close>: the
  quotient is zero or between \<open>1 / 10000\<close> and \<open>2 ^ 1024 / 10000\<close>, so it neither
  overflows nor falls among the subnormal numbers, and the exponent needs no bound.
\<close>

definition float_div :: "int \<Rightarrow> int \<Rightarrow> real" where
  "float_div a b =
     (if a = 0 then 0
      else
        (let p = \<bar>a\<bar>;
             e = floor_log2 p b - 52;
             n = (if 0 \<le> e then round_half_even p (b * 2 ^ nat e)
                  else round_half_even (p * 2 ^ nat (- e)) b)
         in real_of_int (sgn a) *
              (if 0 \<le> e then real_of_int (n * 2 ^ nat e)
               else real_of_int n / 2 ^ nat (- e))))"

text \<open>
  \<open>r / b\<close> for an \<open>int r\<close> and a float \<open>b\<close> that is a whole positive number: \<open>r\<close> is
  converted, then divided.
\<close>

definition truediv :: "int \<Rightarrow> int \<Rightarrow> py_exception + real" where
  "truediv r b =
     (case int_to_float r of
        Inl e \<Rightarrow> Inl e
      | Inr a \<Rightarrow> Inr (float_div a b))"

text \<open>
  \<open>x >= y\<close> for a finite float \<open>x\<close> and any float \<open>y\<close>: a comparison with \<open>nan\<close> is
  false.
\<close>

fun float_ge :: "real \<Rightarrow> pyfloat \<Rightarrow> bool" where
  "float_ge x (Finite y) = (y \<le> x)"
| "float_ge x PosInf = False"
| "float_ge x NegInf = True"
| "float_ge x NaN = False"

section \<open>The client\<close>

subsection \<open>get_funding_rates\<close>

text \<open>The body of the \<open>try\<close> block, lines 67 to 82.\<close>

definition fetch_body :: "http_result \<Rightarrow> py_exception + FundingRatesData" where
  "fetch_body h =
     (case h of
        Inl e \<Rightarrow> Inl e
      | Inr r \<Rightarrow>
          (case raise_for_status r of
             Inl e \<Rightarrow> Inl e
           | Inr _ \<Rightarrow>
               (case json_result r of
                  Inl e \<Rightarrow> Inl e
                | Inr (JSONOther tn) \<Rightarrow>
                    Inl (AttributeError
                      ([CHR 0x27] @ tn @ [CHR 0x27] @ '' object has no attribute ''
                        @ [CHR 0x27] @ ''get'' @ [CHR 0x27]))
                | Inr (JSONObject data) \<Rightarrow>
                    Inr \<lparr> symbols = get_default (symbols_entry data) [],
                          exchanges = get_default (exchanges_entry data) [],
                          funding_rates = get_default (funding_rates_entry data) [],
                          oi_rankings = get_default (oi_rankings_entry data) [],
                          default_oi_rank = get_default (default_oi_rank_entry data) ''500+'',
                          timestamp = get_default (timestamp_entry data) '''' \<rparr>)))"

text \<open>
  The two \<open>except\<close> clauses, lines 83 to 86; an exception that neither clause matches
  propagates to the caller.
\<close>

definition get_funding_rates :: "http_result \<Rightarrow> py_exception + FundingRatesData" where
  "get_funding_rates h =
     (case fetch_body h of
        Inr d \<Rightarrow> Inr d
      | Inl (RequestException m) \<Rightarrow>
          Inl (onlyfundingError (''Failed to fetch funding rates: '' @ m))
      | Inl (KeyError m) \<Rightarrow> Inl (onlyfundingError (''Invalid API response: '' @ m))
      | Inl (ValueError m) \<Rightarrow> Inl (onlyfundingError (''Invalid API response: '' @ m))
      | Inl e \<Rightarrow> Inl e)"

subsection \<open>get_rate\<close>

text \<open>
  Lines 99 to 106. \<open>k in d\<close> followed by \<open>d[k]\<close> is one lookup with two outcomes;
  \<open>rate / 10000.0\<close> raises when the rate is beyond the range of the doubles.
\<close>

definition get_rate :: "http_result \<Rightarrow> string \<Rightarrow> string \<Rightarrow> py_exception + real option" where
  "get_rate h exchange symb =
     (case get_funding_rates h of
        Inl e \<Rightarrow> Inl e
      | Inr data \<Rightarrow>
          (case map_of (funding_rates data) exchange of
             Some syms \<Rightarrow>
               (case map_of syms symb of
                  Some rate \<Rightarrow>
                    (case truediv rate 10000 of
                       Inl e \<Rightarrow> Inl e
                     | Inr v \<Rightarrow> Inr (Some v))
                | None \<Rightarrow> Inr None)
           | None \<Rightarrow> Inr None))"

subsection \<open>find_arbitrage_opportunities\<close>

text \<open>
  Lines 127 to 130: the loop over \<open>data.funding_rates.items()\<close> that fills the dict
  \<open>rates\<close>. \<open>AList.update\<close> is the assignment \<open>rates[exchange] = v\<close>: it replaces the
  value of a key that is present, in place, and appends a new key at the end.
\<close>

fun collect_rates ::
  "string \<Rightarrow> (string, (string, int) dict) dict \<Rightarrow> (string, int) dict \<Rightarrow> (string, int) dict"
where
  "collect_rates symb [] rates = rates"
| "collect_rates symb ((exchange, syms) # items) rates =
     collect_rates symb items
       (case map_of syms symb of
          Some v \<Rightarrow> AList.update exchange v rates
        | None \<Rightarrow> rates)"

text \<open>
  Lines 138 to 153: the inner loop \<open>for exchange2 in exchanges[i+1:]\<close>, over the slice
  it is given, appending to \<open>opportunities\<close>. The spread is computed first; the two
  normalized rates are computed, in the order of the dict literal, only for a pair that
  passes the filter. Each of the three divisions can raise.
\<close>

fun inner_loop ::
  "string \<Rightarrow> pyfloat \<Rightarrow> (string, int) dict \<Rightarrow> string \<Rightarrow> string list \<Rightarrow>
   opportunity list \<Rightarrow> py_exception + opportunity list"
where
  "inner_loop symb min_spread rates ex1 [] opportunities = Inr opportunities"
| "inner_loop symb min_spread rates ex1 (ex2 # rest) opportunities =
     (case subscript rates ex1 of
        Inl e \<Rightarrow> Inl e
      | Inr r1 \<Rightarrow>
          (case subscript rates ex2 of
             Inl e \<Rightarrow> Inl e
           | Inr r2 \<Rightarrow>
               (case truediv \<bar>r1 - r2\<bar> 10000 of
                  Inl e \<Rightarrow> Inl e
                | Inr spr \<Rightarrow>
                    if float_ge spr min_spread
                    then
                      (case truediv r1 10000 of
                         Inl e \<Rightarrow> Inl e
                       | Inr n1 \<Rightarrow>
                           (case truediv r2 10000 of
                              Inl e \<Rightarrow> Inl e
                            | Inr n2 \<Rightarrow>
                                inner_loop symb min_spread rates ex1 rest
                                  (opportunities @
                                    [\<lparr> symbol = symb,
                                       exchange1 = ex1,
                                       rate1 = n1,
                                       exchange2 = ex2,
                                       rate2 = n2,
                                       spread = spr,
                                       long_exchange = (if r1 < r2 then ex1 else ex2),
                                       short_exchange = (if r1 < r2 then ex2 else ex1) \<rparr>])))
                    else inner_loop symb min_spread rates ex1 rest opportunities)))"

text \<open>
  Line 137: the outer loop \<open>for i, exchange1 in enumerate(exchanges)\<close>, over the pairs
  of \<open>enumerate\<close> that remain; \<open>drop (i + 1) exchanges\<close> is the slice
  \<open>exchanges[i+1:]\<close>.
\<close>

fun outer_loop ::
  "string \<Rightarrow> pyfloat \<Rightarrow> (string, int) dict \<Rightarrow> string list \<Rightarrow> (nat \<times> string) list \<Rightarrow>
   opportunity list \<Rightarrow> py_exception + opportunity list"
where
  "outer_loop symb min_spread rates exs [] opportunities = Inr opportunities"
| "outer_loop symb min_spread rates exs ((i, ex1) # rest) opportunities =
     (case inner_loop symb min_spread rates ex1 (drop (i + 1) exs) opportunities of
        Inl e \<Rightarrow> Inl e
      | Inr opportunities' \<Rightarrow> outer_loop symb min_spread rates exs rest opportunities')"

text \<open>Lines 123 to 158.\<close>

definition find_arbitrage_opportunities ::
  "http_result \<Rightarrow> string \<Rightarrow> pyfloat \<Rightarrow> py_exception + opportunity list"
where
  "find_arbitrage_opportunities h symb min_spread =
     (case get_funding_rates h of
        Inl e \<Rightarrow> Inl e
      | Inr data \<Rightarrow>
          (let rates = collect_rates symb (funding_rates data) []
           in if length rates < 2 then Inr []
              else
                (let exs = map fst rates
                 in case outer_loop symb min_spread rates exs (enumerate 0 exs) [] of
                      Inl e \<Rightarrow> Inl e
                    | Inr opportunities \<Rightarrow> Inr (sort_reverse spread opportunities))))"

section \<open>Notions of the specification\<close>

text \<open>
  The raw rate stored at \<open>funding_rates[exchange][symbol]\<close>, when both keys are
  present.
\<close>

definition raw_rate :: "FundingRatesData \<Rightarrow> string \<Rightarrow> string \<Rightarrow> int option" where
  "raw_rate data exchange symb =
     (case map_of (funding_rates data) exchange of
        None \<Rightarrow> None
      | Some syms \<Rightarrow> map_of syms symb)"

text \<open>
  The exchanges whose rate table contains the symbol, each with its raw rate, in the
  order of the snapshot; and the list of their names, the qualifying exchanges.
\<close>

fun rated :: "string \<Rightarrow> (string, (string, int) dict) dict \<Rightarrow> (string, int) dict" where
  "rated symb [] = []"
| "rated symb ((exchange, syms) # items) =
     (case map_of syms symb of
        Some v \<Rightarrow> (exchange, v) # rated symb items
      | None \<Rightarrow> rated symb items)"

definition qualifying :: "FundingRatesData \<Rightarrow> string \<Rightarrow> string list" where
  "qualifying data symb = map fst (rated symb (funding_rates data))"

text \<open>
  The float that \<open>r / 10000.0\<close> evaluates to when the conversion of \<open>r\<close> does not raise.
\<close>

definition normalized :: "int \<Rightarrow> real" where
  "normalized r = float_div (nearest_double r) 10000"

text \<open>
  Every rate of the symbol is so small that neither a rate nor the difference of two
  rates is too large to convert: twice the rate is below the threshold.
\<close>

definition in_double_range :: "FundingRatesData \<Rightarrow> string \<Rightarrow> bool" where
  "in_double_range data symb =
     list_all (\<lambda>p. \<not> too_large (2 * snd p)) (rated symb (funding_rates data))"

text \<open>
  The opportunity of a pair of rated exchanges, the pairs of one exchange with the
  exchanges after it that pass the spread filter, and all such pairs of a list: the
  closed form of what the two loops append when no division raises.
\<close>

definition opp_of :: "string \<Rightarrow> string \<Rightarrow> int \<Rightarrow> string \<times> int \<Rightarrow> opportunity" where
  "opp_of symb ex1 r1 p =
     \<lparr> symbol = symb,
       exchange1 = ex1,
       rate1 = normalized r1,
       exchange2 = fst p,
       rate2 = normalized (snd p),
       spread = normalized \<bar>r1 - snd p\<bar>,
       long_exchange = (if r1 < snd p then ex1 else fst p),
       short_exchange = (if r1 < snd p then fst p else ex1) \<rparr>"

definition pairs_with ::
  "string \<Rightarrow> pyfloat \<Rightarrow> string \<Rightarrow> int \<Rightarrow> (string, int) dict \<Rightarrow> opportunity list"
where
  "pairs_with symb min_spread ex1 r1 ps =
     map (opp_of symb ex1 r1)
       (filter (\<lambda>p. float_ge (normalized \<bar>r1 - snd p\<bar>) min_spread) ps)"

fun all_pairs :: "string \<Rightarrow> pyfloat \<Rightarrow> (string, int) dict \<Rightarrow> opportunity list" where
  "all_pairs symb min_spread [] = []"
| "all_pairs symb min_spread (p # ps) =
     pairs_with symb min_spread (fst p) (snd p) ps @ all_pairs symb min_spread ps"

text \<open>
  The body of the inner loop raises for a pair of rates when the difference is too
  large to convert, or when the pair passes the filter and one of the rates is too
  large; the loops raise when the body raises for a pair they enumerate.
\<close>

definition pair_raises :: "pyfloat \<Rightarrow> int \<Rightarrow> int \<Rightarrow> bool" where
  "pair_raises min_spread r1 r2 =
     (too_large \<bar>r1 - r2\<bar>
      \<or> (float_ge (normalized \<bar>r1 - r2\<bar>) min_spread \<and> (too_large r1 \<or> too_large r2)))"

fun raises :: "pyfloat \<Rightarrow> (string, int) dict \<Rightarrow> bool" where
  "raises min_spread [] = False"
| "raises min_spread (p # ps) =
     (list_ex (\<lambda>q. pair_raises min_spread (snd p) (snd q)) ps \<or> raises min_spread ps)"

text \<open>
  The position of an element in a list, and the order in which the loops enumerate
  pairs: first by the position of the first exchange in the list of qualifying
  exchanges, then by the position of the second.
\<close>

fun index_of :: "'a list \<Rightarrow> 'a \<Rightarrow> nat" where
  "index_of [] x = 0"
| "index_of (y # ys) x = (if x = y then 0 else Suc (index_of ys x))"

definition enum_before :: "string list \<Rightarrow> opportunity \<Rightarrow> opportunity \<Rightarrow> bool" where
  "enum_before qs a b =
     (index_of qs (exchange1 a) < index_of qs (exchange1 b)
      \<or> (index_of qs (exchange1 a) = index_of qs (exchange1 b)
          \<and> index_of qs (exchange2 a) < index_of qs (exchange2 b)))"

section \<open>Example inputs\<close>

text \<open>
  The rate table of the specification's example, a table with two equal rates, a table
  with a rate beyond the doubles, and a response with status 200 whose body holds only
  the key \<open>funding_rates\<close>, with the snapshot the client builds from it.
\<close>

definition example_rates :: "(string, (string, int) dict) dict" where
  "example_rates =
     [(''ex_a'', [(''BTC'', 100)]), (''ex_b'', [(''BTC'', 300)]), (''ex_c'', [(''BTC'', 50)])]"

definition tied_rates :: "(string, (string, int) dict) dict" where
  "tied_rates =
     [(''ex_a'', [(''BTC'', 100)]), (''ex_b'', [(''BTC'', 100), (''ETH'', 7)]),
      (''ex_c'', [(''BTC'', 200)])]"

definition huge_rates :: "(string, (string, int) dict) dict" where
  "huge_rates = [(''ex_a'', [(''BTC'', 10 ^ 309)]), (''ex_b'', [(''BTC'', 0)])]"

definition snapshot_of :: "(string, (string, int) dict) dict \<Rightarrow> FundingRatesData" where
  "snapshot_of fr =
     \<lparr> symbols = [], exchanges = [], funding_rates = fr, oi_rankings = [],
       default_oi_rank = ''500+'', timestamp = '''' \<rparr>"

definition ok_response :: "(string, (string, int) dict) dict \<Rightarrow> http_result" where
  "ok_response fr =
     Inr \<lparr> status_code = 200,
           json_result = Inr (JSONObject
             \<lparr> symbols_entry = None, exchanges_entry = None, funding_rates_entry = Some fr,
               oi_rankings_entry = None, default_oi_rank_entry = None,
               timestamp_entry = None \<rparr>) \<rparr>"

definition empty_payload :: payload where
  "empty_payload =
     \<lparr> symbols_entry = None, exchanges_entry = None, funding_rates_entry = None,
       oi_rankings_entry = None, default_oi_rank_entry = None, timestamp_entry = None \<rparr>"

text \<open>
  The doubles that Python writes \<open>0.005\<close>, \<open>0.01\<close>, \<open>0.02\<close>, \<open>0.025\<close> and \<open>0.03\<close>.
\<close>

definition float_0_005 :: real where "float_0_005 = 5764607523034235 / 2 ^ 60"
definition float_0_01 :: real where "float_0_01 = 5764607523034235 / 2 ^ 59"
definition float_0_02 :: real where "float_0_02 = 5764607523034235 / 2 ^ 58"
definition float_0_025 :: real where "float_0_025 = 3602879701896397 / 2 ^ 57"
definition float_0_03 :: real where "float_0_03 = 1080863910568919 / 2 ^ 55"

section \<open>Properties of the float arithmetic\<close>

text \<open>The bit length brackets a number between two powers of two.\<close>

lemma bit_length_0: "bit_length 0 = 0"
  by (subst bit_length.simps) simp

lemma bit_length_1: "bit_length (Suc 0) = Suc 0"
  by (subst bit_length.simps) (simp add: bit_length_0)

lemma bit_length_bounds:
  "0 < n \<Longrightarrow> 2 ^ (bit_length n - 1) \<le> n \<and> n < 2 ^ bit_length n"
proof (induction n rule: bit_length.induct)
  case (1 n)
  show ?case
  proof (cases "n div 2 = 0")
    case True
    with 1(2) have "n = 1" by presburger
    then show ?thesis
      by (simp add: bit_length_1)
  next
    case False
    then have pos: "0 < n div 2" by simp
    from 1(1)[OF _ pos] 1(2)
    have IH: "2 ^ (bit_length (n div 2) - 1) \<le> n div 2" "n div 2 < 2 ^ bit_length (n div 2)"
      by simp_all
    have bl: "bit_length n = Suc (bit_length (n div 2))"
      using 1(2) by (subst bit_length.simps) simp
    have "0 < bit_length (n div 2)"
      using pos by (subst bit_length.simps) simp
    then obtain k where k: "bit_length (n div 2) = Suc k" by (cases "bit_length (n div 2)") auto
    from IH k have "2 * 2 ^ k \<le> n" "n < 2 * 2 ^ Suc k" by simp_all
    with bl k show ?thesis by simp
  qed
qed

text \<open>
  The rounding is to the nearest: the rounded quotient is within one half of the quotient,
  the division is within the relative error \<open>2 ^ - 53\<close> of the exact quotient, and so is
  the conversion of an \<open>int\<close>, which is exact below \<open>2 ^ 53\<close>.
\<close>

lemma round_half_even_error:
  assumes "0 < q"
  shows "\<bar>real_of_int (round_half_even p q) - real_of_int p / real_of_int q\<bar> \<le> 1 / 2"
proof -
  define d where "d = p div q"
  define m where "m = p mod q"
  have p: "p = d * q + m" and m: "0 \<le> m" "m < q"
    using assms by (simp_all add: d_def m_def)
  have q: "0 < real_of_int q" using assms by simp
  have quot: "real_of_int p / real_of_int q = real_of_int d + real_of_int m / real_of_int q"
    using q by (simp add: p field_simps)
  have frac: "0 \<le> real_of_int m / real_of_int q" "real_of_int m / real_of_int q < 1"
    using m q by simp_all
  consider (lo) "2 * m < q" | (hi) "q < 2 * m" | (tie) "2 * m = q" by linarith
  then show ?thesis
  proof cases
    case lo
    then have "real_of_int m / real_of_int q \<le> 1 / 2"
      using q by (simp add: field_simps)
    with lo frac show ?thesis
      by (simp add: round_half_even_def d_def[symmetric] m_def[symmetric] quot)
  next
    case hi
    then have "1 / 2 \<le> real_of_int m / real_of_int q"
      using q by (simp add: field_simps)
    with hi frac show ?thesis
      by (simp add: round_half_even_def d_def[symmetric] m_def[symmetric] quot Let_def)
  next
    case tie
    then have "real_of_int m / real_of_int q = 1 / 2"
      using q by (simp add: field_simps)
    then have x: "real_of_int p / real_of_int q = real_of_int d + 1 / 2"
      by (simp only: quot)
    from tie have "round_half_even p q = d \<or> round_half_even p q = d + 1"
      by (simp add: round_half_even_def d_def[symmetric] m_def[symmetric] Let_def)
    then show ?thesis
    proof
      assume e: "round_half_even p q = d"
      show ?thesis unfolding e x by simp
    next
      assume e: "round_half_even p q = d + 1"
      show ?thesis unfolding e x by simp
    qed
  qed
qed


lemma bit_length_real_bounds:
  assumes "0 < p"
  shows "2 ^ bit_length (nat p) \<le> 2 * real_of_int p"
    and "real_of_int p < 2 ^ bit_length (nat p)"
proof -
  from assms have n: "0 < nat p" by simp
  from bit_length_bounds[OF n]
  have lo: "2 ^ (bit_length (nat p) - 1) \<le> nat p" and hi: "nat p < 2 ^ bit_length (nat p)"
    by simp_all
  have "0 < bit_length (nat p)"
    using n by (subst bit_length.simps) simp
  then obtain k where k: "bit_length (nat p) = Suc k"
    by (cases "bit_length (nat p)") auto
  from lo k have "2 ^ Suc k \<le> 2 * nat p" by simp
  then have "real (2 ^ Suc k) \<le> real (2 * nat p)" by (rule of_nat_mono)
  with assms k show "2 ^ bit_length (nat p) \<le> 2 * real_of_int p" by simp
  from hi have "real (nat p) < real (2 ^ bit_length (nat p))" by (rule of_nat_less_imp_less[rotated] | simp)+
  with assms show "real_of_int p < 2 ^ bit_length (nat p)" by simp
qed

lemma floor_log2_bounds:
  assumes "0 < p" and "0 < b"
  shows "real_of_int b * 2 powi floor_log2 p b \<le> real_of_int p"
    and "real_of_int p < real_of_int b * 2 powi (floor_log2 p b + 1)"
proof -
  define P where "P = bit_length (nat p)"
  define B where "B = bit_length (nat b)"
  define k where "k = int P - int B"
  have two: "(2::real) powi k = 2 ^ P / 2 ^ B"
    by (simp add: k_def power_int_diff)
  note pb = bit_length_real_bounds[OF assms(1), folded P_def]
  note bb = bit_length_real_bounds[OF assms(2), folded B_def]
  have rb: "0 < real_of_int b" and rp: "0 < real_of_int p" using assms by simp_all
  have up: "real_of_int p < real_of_int b * 2 powi (k + 1)"
  proof -
    have "real_of_int p * 2 ^ B < 2 ^ P * (2 * real_of_int b)"
      using pb(2) bb(1) rp rb by (intro mult_less_le_imp_less) simp_all
    then show ?thesis
      by (simp add: power_int_add two field_simps)
  qed
  have low: "real_of_int b * 2 powi (k - 1) \<le> real_of_int p"
  proof -
    have "real_of_int b * 2 ^ P \<le> 2 ^ B * (2 * real_of_int p)"
      using pb(1) bb(2) rp rb by (intro mult_mono) simp_all
    then show ?thesis
      by (simp add: power_int_diff two field_simps)
  qed
  have cond: "(if 0 \<le> k then b * 2 ^ nat k \<le> p else b \<le> p * 2 ^ nat (- k))
      \<longleftrightarrow> real_of_int b * 2 powi k \<le> real_of_int p"
  proof (cases "0 \<le> k")
    case True
    then have "(2::real) powi k = 2 ^ nat k" by (simp add: power_int_def)
    moreover have "b * 2 ^ nat k \<le> p \<longleftrightarrow> real_of_int (b * 2 ^ nat k) \<le> real_of_int p"
      by (simp only: of_int_le_iff)
    ultimately show ?thesis using True by simp
  next
    case False
    define c :: real where "c = 2 ^ nat (- k)"
    have c: "0 < c" by (simp add: c_def)
    from False have pw: "(2::real) powi k = 1 / c"
      by (simp add: power_int_def c_def field_simps)
    have "b \<le> p * 2 ^ nat (- k) \<longleftrightarrow> real_of_int b \<le> real_of_int (p * 2 ^ nat (- k))"
      by (simp only: of_int_le_iff)
    also have "\<dots> \<longleftrightarrow> real_of_int b \<le> real_of_int p * c"
      by (simp add: c_def)
    also have "\<dots> \<longleftrightarrow> real_of_int b * (1 / c) \<le> real_of_int p"
      using c by (simp add: field_simps)
    finally show ?thesis using False by (simp only: pw if_False)
  qed
  have f: "floor_log2 p b = (if real_of_int b * 2 powi k \<le> real_of_int p then k else k - 1)"
    unfolding floor_log2_def P_def[symmetric] B_def[symmetric] k_def[symmetric] Let_def cond ..
  show "real_of_int b * 2 powi floor_log2 p b \<le> real_of_int p"
    using low by (simp add: f)
  show "real_of_int p < real_of_int b * 2 powi (floor_log2 p b + 1)"
    using up by (simp add: f not_le)
qed


lemma float_div_rounds:
  assumes "a \<noteq> 0" and "0 < b"
  shows "\<exists>n. float_div a b
             = real_of_int (sgn a) * (real_of_int n * 2 powi (floor_log2 \<bar>a\<bar> b - 52))
           \<and> \<bar>real_of_int n
                - (real_of_int \<bar>a\<bar> / real_of_int b) / 2 powi (floor_log2 \<bar>a\<bar> b - 52)\<bar>
               \<le> 1 / 2"
proof -
  define e where "e = floor_log2 \<bar>a\<bar> b - 52"
  have rb: "0 < real_of_int b" using assms by simp
  show ?thesis
  proof (cases "0 \<le> e")
    case True
    define n where "n = round_half_even \<bar>a\<bar> (b * 2 ^ nat e)"
    from True have pw: "(2::real) powi e = 2 ^ nat e" by (simp add: power_int_def)
    have "0 < b * 2 ^ nat e" using assms by simp
    from round_half_even_error[OF this, of "\<bar>a\<bar>"]
    have "\<bar>real_of_int n - real_of_int \<bar>a\<bar> / real_of_int (b * 2 ^ nat e)\<bar> \<le> 1 / 2"
      by (simp only: n_def)
    then have err: "\<bar>real_of_int n - (real_of_int \<bar>a\<bar> / real_of_int b) / 2 powi e\<bar> \<le> 1 / 2"
      by (simp add: pw)
    have "float_div a b = real_of_int (sgn a) * real_of_int (n * 2 ^ nat e)"
      unfolding float_div_def Let_def e_def[symmetric]
      using assms(1) True by (simp add: n_def)
    then have "float_div a b = real_of_int (sgn a) * (real_of_int n * 2 powi e)"
      by (simp add: pw)
    with err show ?thesis unfolding e_def by blast
  next
    case False
    define n where "n = round_half_even (\<bar>a\<bar> * 2 ^ nat (- e)) b"
    define c :: real where "c = 2 ^ nat (- e)"
    have c: "0 < c" by (simp add: c_def)
    from False have pw: "(2::real) powi e = 1 / c"
      by (simp add: power_int_def c_def field_simps)
    from round_half_even_error[OF assms(2), of "\<bar>a\<bar> * 2 ^ nat (- e)"]
    have "\<bar>real_of_int n - real_of_int (\<bar>a\<bar> * 2 ^ nat (- e)) / real_of_int b\<bar> \<le> 1 / 2"
      by (simp only: n_def)
    then have err: "\<bar>real_of_int n - (real_of_int \<bar>a\<bar> / real_of_int b) / 2 powi e\<bar> \<le> 1 / 2"
      by (simp add: pw c_def)
    have "float_div a b = real_of_int (sgn a) * (real_of_int n / 2 ^ nat (- e))"
      unfolding float_div_def Let_def e_def[symmetric]
      using assms(1) False by (simp add: n_def)
    then have "float_div a b = real_of_int (sgn a) * (real_of_int n * 2 powi e)"
      by (simp add: pw c_def)
    with err show ?thesis unfolding e_def by blast
  qed
qed

lemma float_div_error:
  assumes "0 < b"
  shows "\<bar>float_div a b - real_of_int a / real_of_int b\<bar>
           \<le> \<bar>real_of_int a / real_of_int b\<bar> / 2 ^ 53"
proof (cases "a = 0")
  case True
  then show ?thesis by (simp add: float_div_def)
next
  case False
  define f where "f = floor_log2 \<bar>a\<bar> b"
  define s :: real where "s = 2 powi (f - 52)"
  define x where "x = real_of_int \<bar>a\<bar> / real_of_int b"
  have rb: "0 < real_of_int b" using assms by simp
  have s: "0 < s" by (simp add: s_def)
  from False have pa: "0 < \<bar>a\<bar>" by simp
  from floor_log2_bounds(1)[OF pa assms] have "2 powi f \<le> x"
    using rb by (simp add: x_def f_def field_simps)
  moreover have "(2::real) powi f = s * 2 ^ 52"
    by (simp add: s_def power_int_diff)
  ultimately have sx: "s * 2 ^ 52 \<le> x" by simp
  from float_div_rounds[OF False assms] obtain n
    where v: "float_div a b = real_of_int (sgn a) * (real_of_int n * s)"
      and n: "\<bar>real_of_int n - x / s\<bar> \<le> 1 / 2"
    unfolding f_def[symmetric] s_def[symmetric] x_def[symmetric] by blast
  have "\<bar>real_of_int n * s - x\<bar> = \<bar>real_of_int n - x / s\<bar> * s"
    using s by (simp add: abs_mult[symmetric] field_simps)
  also have "\<dots> \<le> 1 / 2 * s"
    using n s by (intro mult_right_mono) simp_all
  also have "\<dots> \<le> x / 2 ^ 53"
    using sx by simp
  finally have err: "\<bar>real_of_int n * s - x\<bar> \<le> x / 2 ^ 53" .
  have ax: "real_of_int a / real_of_int b = real_of_int (sgn a) * x"
    by (simp add: x_def sgn_if)
  have sg: "\<bar>real_of_int (sgn a)\<bar> = 1" using False by (simp add: sgn_if)
  have "float_div a b - real_of_int a / real_of_int b
          = real_of_int (sgn a) * (real_of_int n * s - x)"
    by (simp only: v ax right_diff_distrib)
  then have "\<bar>float_div a b - real_of_int a / real_of_int b\<bar> = \<bar>real_of_int n * s - x\<bar>"
    by (simp only: abs_mult sg mult_1)
  moreover have "\<bar>real_of_int a / real_of_int b\<bar> = x"
    using rb by (simp add: x_def)
  ultimately show ?thesis using err by simp
qed

lemma bit_length_le_53:
  assumes "n < 2 ^ 53"
  shows "bit_length n \<le> 53"
proof (cases "n = 0")
  case True
  then show ?thesis by (simp add: bit_length_0)
next
  case False
  then have "0 < n" by simp
  from bit_length_bounds[OF this] assms have "(2::nat) ^ (bit_length n - 1) < 2 ^ 53"
    by linarith
  then have "bit_length n - 1 < 53"
    by (simp only: power_strict_increasing_iff[of 2] one_less_numeral_iff semiring_norm)
  then show ?thesis by simp
qed

lemma nearest_double_exact:
  assumes "\<bar>r\<bar> < 2 ^ 53"
  shows "nearest_double r = r"
proof -
  from assms have "nat \<bar>r\<bar> < 2 ^ 53" by (simp add: nat_less_iff)
  then have "bit_length (nat \<bar>r\<bar>) \<le> 53" by (rule bit_length_le_53)
  then show ?thesis by (simp add: nearest_double_def)
qed


lemma nearest_double_error:
  "\<bar>real_of_int (nearest_double r) - real_of_int r\<bar> \<le> \<bar>real_of_int r\<bar> / 2 ^ 53"
proof (cases "bit_length (nat \<bar>r\<bar>) \<le> 53")
  case True
  then show ?thesis by (simp add: nearest_double_def)
next
  case False
  define k where "k = bit_length (nat \<bar>r\<bar>) - 54"
  have b: "bit_length (nat \<bar>r\<bar>) = k + 54" using False by (simp add: k_def)
  define q :: int where "q = 2 ^ (k + 1)"
  define n where "n = round_half_even \<bar>r\<bar> q"
  have q: "0 < q" by (simp add: q_def)
  have rq: "real_of_int q = 2 * 2 ^ k" by (simp add: q_def)
  have "r \<noteq> 0" using False by (auto simp: bit_length_0)
  then have pr: "0 < \<bar>r\<bar>" by simp
  from bit_length_real_bounds(1)[OF pr] have big: "2 ^ (k + 54) \<le> 2 * real_of_int \<bar>r\<bar>"
    by (simp only: b)
  have nd: "nearest_double r = sgn r * (n * q)"
    using False by (simp add: nearest_double_def Let_def b n_def q_def)
  from round_half_even_error[OF q, of "\<bar>r\<bar>"]
  have "\<bar>real_of_int n - real_of_int \<bar>r\<bar> / real_of_int q\<bar> \<le> 1 / 2" by (simp only: n_def)
  then have "\<bar>real_of_int n - real_of_int \<bar>r\<bar> / real_of_int q\<bar> * real_of_int q
               \<le> 1 / 2 * real_of_int q"
    using q by (intro mult_right_mono) simp_all
  moreover have "\<bar>real_of_int n - real_of_int \<bar>r\<bar> / real_of_int q\<bar> * real_of_int q
      = \<bar>real_of_int (n * q) - real_of_int \<bar>r\<bar>\<bar>"
    using q by (simp add: abs_mult[symmetric] field_simps)
  ultimately have "\<bar>real_of_int (n * q) - real_of_int \<bar>r\<bar>\<bar> \<le> 1 / 2 * real_of_int q"
    by (simp only:)
  moreover have "1 / 2 * real_of_int q = 2 ^ k"
    by (simp add: rq)
  ultimately have "\<bar>real_of_int (n * q) - real_of_int \<bar>r\<bar>\<bar> \<le> 2 ^ k"
    by (simp only:)
  moreover have "(2::real) ^ k \<le> real_of_int \<bar>r\<bar> / 2 ^ 53"
    using big by (simp add: power_add field_simps)
  ultimately have err: "\<bar>real_of_int (n * q) - real_of_int \<bar>r\<bar>\<bar> \<le> real_of_int \<bar>r\<bar> / 2 ^ 53"
    by linarith
  have "real_of_int (nearest_double r) - real_of_int r
          = real_of_int (sgn r) * (real_of_int (n * q) - real_of_int \<bar>r\<bar>)"
    by (simp add: nd sgn_if algebra_simps)
  moreover have "\<bar>real_of_int (sgn r)\<bar> = 1" using \<open>r \<noteq> 0\<close> by (simp add: sgn_if)
  ultimately have "\<bar>real_of_int (nearest_double r) - real_of_int r\<bar>
      = \<bar>real_of_int (n * q) - real_of_int \<bar>r\<bar>\<bar>"
    by (simp only: abs_mult mult_1)
  with err show ?thesis by simp
qed

lemma normalized_error:
  "\<bar>normalized r - real_of_int r / 10000\<bar> \<le> 3 * \<bar>real_of_int r / 10000\<bar> / 2 ^ 53"
proof -
  define u :: real where "u = 1 / 2 ^ 53"
  define a where "a = nearest_double r"
  have u: "0 \<le> u" "u \<le> 1" by (simp_all add: u_def)
  have 1: "\<bar>normalized r - real_of_int a / 10000\<bar> \<le> \<bar>real_of_int a\<bar> / 10000 * u"
    using float_div_error[of 10000 a] by (simp add: normalized_def a_def u_def)
  have 2: "\<bar>real_of_int a - real_of_int r\<bar> \<le> \<bar>real_of_int r\<bar> * u"
    using nearest_double_error[of r] by (simp add: a_def u_def)
  then have 3: "\<bar>real_of_int a\<bar> \<le> \<bar>real_of_int r\<bar> * (1 + u)"
    by (simp add: algebra_simps)
  have "\<bar>real_of_int a\<bar> / 10000 * u \<le> \<bar>real_of_int r\<bar> * (1 + u) / 10000 * u"
    using 3 u by (intro mult_right_mono divide_right_mono) simp_all
  also have "\<dots> \<le> \<bar>real_of_int r\<bar> * 2 / 10000 * u"
    using u by (intro mult_right_mono divide_right_mono mult_left_mono) simp_all
  finally have 4: "\<bar>real_of_int a\<bar> / 10000 * u \<le> \<bar>real_of_int r\<bar> * 2 / 10000 * u" .
  have "\<bar>normalized r - real_of_int r / 10000\<bar>
          \<le> \<bar>normalized r - real_of_int a / 10000\<bar> + \<bar>real_of_int a - real_of_int r\<bar> / 10000"
    by (simp add: field_simps)
  also have "\<dots> \<le> \<bar>real_of_int r\<bar> * 2 / 10000 * u + \<bar>real_of_int r\<bar> * u / 10000"
    using 1 2 4 by (intro add_mono divide_right_mono) linarith+
  also have "\<dots> = 3 * \<bar>real_of_int r / 10000\<bar> / 2 ^ 53"
    by (simp add: u_def)
  finally show ?thesis .
qed

lemma normalized_error_small:
  assumes "\<bar>r\<bar> < 2 ^ 53"
  shows "normalized r = float_div r 10000"
    and "\<bar>normalized r - real_of_int r / 10000\<bar> \<le> \<bar>real_of_int r / 10000\<bar> / 2 ^ 53"
proof -
  show n: "normalized r = float_div r 10000"
    by (simp add: normalized_def nearest_double_exact[OF assms])
  show "\<bar>normalized r - real_of_int r / 10000\<bar> \<le> \<bar>real_of_int r / 10000\<bar> / 2 ^ 53"
    using float_div_error[of 10000 r] by (simp add: n)
qed

text \<open>What \<open>r / 10000.0\<close> evaluates to, and signs.\<close>

lemma truediv_10000:
  "truediv r 10000 = (if too_large r then Inl overflow_error else Inr (normalized r))"
  by (simp add: truediv_def int_to_float_def normalized_def)

lemma round_half_even_nonneg: "0 \<le> p \<Longrightarrow> 0 < q \<Longrightarrow> 0 \<le> round_half_even p q"
  by (simp add: round_half_even_def Let_def pos_imp_zdiv_nonneg_iff)

lemma nearest_double_nonneg:
  assumes "0 \<le> r"
  shows "0 \<le> nearest_double r"
proof -
  have rhe: "0 \<le> round_half_even \<bar>r\<bar> (2 ^ k) * 2 ^ k" for k :: nat
    by (intro mult_nonneg_nonneg round_half_even_nonneg) simp_all
  from assms have s: "0 \<le> sgn r" by (simp add: sgn_if)
  have "0 \<le> sgn r * (round_half_even \<bar>r\<bar> (2 ^ k) * 2 ^ k)" for k :: nat
    using s rhe[of k] by (rule mult_nonneg_nonneg)
  with assms show ?thesis
    by (simp add: nearest_double_def Let_def)
qed

lemma float_div_nonneg:
  assumes "0 \<le> a" and "0 < b"
  shows "0 \<le> float_div a b"
proof (cases "a = 0")
  case True
  then show ?thesis by (simp add: float_div_def)
next
  case False
  with assms have a: "0 < a" by simp
  let ?e = "floor_log2 \<bar>a\<bar> b - 52"
  show ?thesis
  proof (cases "0 \<le> ?e")
    case True
    have "0 \<le> round_half_even \<bar>a\<bar> (b * 2 ^ nat ?e)"
      using assms by (intro round_half_even_nonneg) simp_all
    then have "0 \<le> real_of_int (round_half_even \<bar>a\<bar> (b * 2 ^ nat ?e) * 2 ^ nat ?e)"
      by simp
    with a True show ?thesis by (simp add: float_div_def Let_def)
  next
    case neg: False
    have "0 \<le> round_half_even (\<bar>a\<bar> * 2 ^ nat (- ?e)) b"
      using assms by (intro round_half_even_nonneg) simp_all
    then have "0 \<le> real_of_int (round_half_even (\<bar>a\<bar> * 2 ^ nat (- ?e)) b) / 2 ^ nat (- ?e)"
      by simp
    with a neg show ?thesis by (simp add: float_div_def Let_def)
  qed
qed

lemma normalized_nonneg: "0 \<le> r \<Longrightarrow> 0 \<le> normalized r"
  by (simp add: normalized_def float_div_nonneg nearest_double_nonneg)

lemma float_ge_mono: "float_ge x m \<Longrightarrow> x \<le> y \<Longrightarrow> float_ge y m"
  by (cases m) auto

lemma not_too_large_half:
  assumes "\<not> too_large (2 * a)" and "\<not> too_large (2 * b)"
  shows "\<not> too_large a" and "\<not> too_large b" and "\<not> too_large \<bar>a - b\<bar>"
proof -
  define T :: int where "T = 2 ^ 1024 - 2 ^ 970"
  have t: "too_large x \<longleftrightarrow> T \<le> \<bar>x\<bar>" for x
    by (simp add: too_large_def T_def)
  from assms have "2 * \<bar>a\<bar> < T" "2 * \<bar>b\<bar> < T"
    by (simp_all add: t abs_mult)
  then have "\<bar>a\<bar> < T" "\<bar>b\<bar> < T" "\<bar>\<bar>a - b\<bar>\<bar> < T"
    by linarith+
  then show "\<not> too_large a" and "\<not> too_large b" and "\<not> too_large \<bar>a - b\<bar>"
    by (simp_all add: t)
qed

lemma pair_raises_commute: "pair_raises ms r1 r2 = pair_raises ms r2 r1"
  by (auto simp: pair_raises_def abs_minus_commute)

section \<open>Properties of the loops and of the sort\<close>

lemma update_fresh: "k \<notin> fst ` set al \<Longrightarrow> AList.update k v al = al @ [(k, v)]"
  by (induction al) auto

lemma fst_set_rated: "fst ` set (rated symb items) \<subseteq> fst ` set items"
  by (induction symb items rule: rated.induct) (auto split: option.splits)

lemma collect_rates_rated:
  "distinct (map fst items) \<Longrightarrow> fst ` set items \<inter> fst ` set rates = {} \<Longrightarrow>
   collect_rates symb items rates = rates @ rated symb items"
proof (induction symb items rates rule: collect_rates.induct)
  case (1 symb rates)
  then show ?case by simp
next
  case (2 symb exchange syms items rates)
  show ?case
  proof (cases "map_of syms symb")
    case None
    with 2 show ?thesis by auto
  next
    case (Some v)
    from 2(3) have fresh: "exchange \<notin> fst ` set rates" by auto
    have disj: "fst ` set items \<inter> fst ` set (AList.update exchange v rates) = {}"
      using 2(2,3) by (auto simp: dom_update)
    from 2(2) have "distinct (map fst items)" by simp
    from 2(1)[OF this] disj Some
    have "collect_rates symb items (AList.update exchange v rates)
            = AList.update exchange v rates @ rated symb items"
      by simp
    with Some fresh show ?thesis by (simp add: update_fresh)
  qed
qed

lemma distinct_rated: "distinct (map fst items) \<Longrightarrow> distinct (map fst (rated symb items))"
proof (induction symb items rule: rated.induct)
  case (1 symb)
  then show ?case by simp
next
  case (2 symb exchange syms items)
  then show ?case
    using fst_set_rated[of symb items] by (auto split: option.splits)
qed

lemma map_of_rated:
  "distinct (map fst items) \<Longrightarrow>
   map_of (rated symb items) e =
     (case map_of items e of None \<Rightarrow> None | Some syms \<Rightarrow> map_of syms symb)"
proof (induction symb items rule: rated.induct)
  case (1 symb)
  then show ?case by simp
next
  case (2 symb exchange syms items)
  have "exchange \<notin> fst ` set (rated symb items)"
    using 2(3) fst_set_rated[of symb items] by auto
  then have "map_of (rated symb items) exchange = None"
    by (simp add: map_of_eq_None_iff)
  with 2 show ?case by (auto split: option.splits)
qed

lemma length_collect_rates:
  "length (collect_rates symb items rates) \<le> length rates + length (rated symb items)"
proof (induction symb items rates rule: collect_rates.induct)
  case (1 symb rates)
  then show ?case by simp
next
  case (2 symb exchange syms items rates)
  have "length (AList.update exchange v rates) \<le> Suc (length rates)" for v
    by (induction rates) auto
  with 2 show ?case
    by (fastforce split: option.splits intro: order_trans)
qed

lemma inner_loop_eq:
  "map_of rates ex1 = Some r1 \<Longrightarrow> \<forall>p \<in> set ps. map_of rates (fst p) = Some (snd p) \<Longrightarrow>
   inner_loop symb ms rates ex1 (map fst ps) acc =
     (if list_ex (\<lambda>p. pair_raises ms r1 (snd p)) ps then Inl overflow_error
      else Inr (acc @ pairs_with symb ms ex1 r1 ps))"
proof (induction ps arbitrary: acc)
  case Nil
  then show ?case by (simp add: pairs_with_def)
next
  case (Cons p ps)
  from Cons.prems have look: "subscript rates ex1 = Inr r1" "subscript rates (fst p) = Inr (snd p)"
    by (simp_all add: subscript_def)
  from Cons.prems have rest: "\<forall>q \<in> set ps. map_of rates (fst q) = Some (snd q)" by simp
  note IH = Cons.IH[OF Cons.prems(1) rest]
  show ?case
  proof (cases "pair_raises ms r1 (snd p)")
    case True
    then show ?thesis
      by (auto simp: look truediv_10000 pair_raises_def)
  next
    case False
    show ?thesis
    proof (cases "float_ge (normalized \<bar>r1 - snd p\<bar>) ms")
      case True
      with False have "\<not> too_large \<bar>r1 - snd p\<bar>" "\<not> too_large r1" "\<not> too_large (snd p)"
        by (simp_all add: pair_raises_def)
      with True False show ?thesis
        by (simp add: look truediv_10000 IH pairs_with_def opp_of_def)
    next
      case nopass: False
      with False have "\<not> too_large \<bar>r1 - snd p\<bar>"
        by (simp add: pair_raises_def)
      with nopass False show ?thesis
        by (simp add: look truediv_10000 IH pairs_with_def)
    qed
  qed
qed

lemma outer_loop_eq:
  "distinct (map fst rates) \<Longrightarrow> drop n rates = ps \<Longrightarrow>
   outer_loop symb ms rates (map fst rates) (enumerate n (map fst ps)) acc
     = (if raises ms ps then Inl overflow_error else Inr (acc @ all_pairs symb ms ps))"
proof (induction ps arbitrary: n acc)
  case Nil
  then show ?case by simp
next
  case (Cons p ps)
  from Cons.prems(2) have tl: "drop (Suc n) rates = ps"
    by (metis drop_Suc tl_drop list.sel(3))
  have sub: "set (p # ps) \<subseteq> set rates"
    using Cons.prems(2) set_drop_subset by metis
  have look: "\<forall>q \<in> set (p # ps). map_of rates (fst q) = Some (snd q)"
    using sub Cons.prems(1) by (auto simp del: set_simps)
  then have l1: "map_of rates (fst p) = Some (snd p)"
    and l2: "\<forall>q \<in> set ps. map_of rates (fst q) = Some (snd q)" by simp_all
  have "drop (n + 1) (map fst rates) = map fst ps"
    using tl by (simp add: drop_map)
  then have "inner_loop symb ms rates (fst p) (drop (n + 1) (map fst rates)) acc
          = (if list_ex (\<lambda>q. pair_raises ms (snd p) (snd q)) ps then Inl overflow_error
             else Inr (acc @ pairs_with symb ms (fst p) (snd p) ps))"
    using inner_loop_eq[OF l1 l2] by simp
  moreover have "outer_loop symb ms rates (map fst rates) (enumerate (Suc n) (map fst ps))
          (acc @ pairs_with symb ms (fst p) (snd p) ps)
        = (if raises ms ps then Inl overflow_error
           else Inr ((acc @ pairs_with symb ms (fst p) (snd p) ps) @ all_pairs symb ms ps))"
    using Cons.IH[OF Cons.prems(1) tl] .
  ultimately show ?case by simp
qed

text \<open>
  For a snapshot whose \<open>funding_rates\<close> is a dict, the list \<open>exchanges\<close> of line 136
  is the list of qualifying exchanges.
\<close>

lemma exchanges_qualifying:
  "distinct (map fst (funding_rates data)) \<Longrightarrow>
   map fst (collect_rates symb (funding_rates data) []) = qualifying data symb"
  using collect_rates_rated[of "funding_rates data" "[]" symb] by (simp add: qualifying_def)

lemma all_pairs_short: "length ps < 2 \<Longrightarrow> all_pairs symb ms ps = []"
  by (cases ps) (auto simp: pairs_with_def)

lemma raises_short: "length ps < 2 \<Longrightarrow> \<not> raises ms ps"
  by (cases ps) auto

lemma not_raises_in_range:
  "list_all (\<lambda>p. \<not> too_large (2 * snd p)) ps \<Longrightarrow> \<not> raises ms ps"
proof (induction ps)
  case Nil
  then show ?case by simp
next
  case (Cons p ps)
  have "\<not> pair_raises ms (snd p) (snd q)" if "q \<in> set ps" for q
  proof -
    from Cons.prems that have "\<not> too_large (2 * snd p)" "\<not> too_large (2 * snd q)"
      by (simp_all add: list_all_iff)
    from not_too_large_half[OF this] show ?thesis by (simp add: pair_raises_def)
  qed
  with Cons show ?case by (simp add: list_ex_iff)
qed

lemma raises_pair:
  "p \<in> set ps \<Longrightarrow> q \<in> set ps \<Longrightarrow> p \<noteq> q \<Longrightarrow> \<not> raises ms ps \<Longrightarrow>
   \<not> pair_raises ms (snd p) (snd q)"
proof (induction ps)
  case Nil
  then show ?case by simp
next
  case (Cons a ps)
  consider (p) "a = p" "q \<in> set ps" | (q) "a = q" "p \<in> set ps"
    | (tl) "p \<in> set ps" "q \<in> set ps"
    using Cons.prems by auto
  then show ?case
  proof cases
    case p
    with Cons.prems(4) show ?thesis by (auto simp: list_ex_iff)
  next
    case q
    with Cons.prems(4) have "\<not> pair_raises ms (snd q) (snd p)" by (auto simp: list_ex_iff)
    then show ?thesis by (simp add: pair_raises_commute)
  next
    case tl
    with Cons show ?thesis by simp
  qed
qed

lemma find_arbitrage_opportunities_eq:
  assumes "get_funding_rates h = Inr data" and "distinct (map fst (funding_rates data))"
  shows "find_arbitrage_opportunities h symb ms
           = (if raises ms (rated symb (funding_rates data)) then Inl overflow_error
              else Inr (sort_reverse spread
                     (all_pairs symb ms (rated symb (funding_rates data)))))"
proof -
  let ?rates = "rated symb (funding_rates data)"
  have c: "collect_rates symb (funding_rates data) [] = ?rates"
    using collect_rates_rated[OF assms(2), of "[]" symb] by simp
  have d: "distinct (map fst ?rates)" using assms(2) by (rule distinct_rated)
  have o: "outer_loop symb ms ?rates (map fst ?rates) (enumerate 0 (map fst ?rates)) []
             = (if raises ms ?rates then Inl overflow_error
                else Inr (all_pairs symb ms ?rates))"
    using outer_loop_eq[OF d, of 0 ?rates symb ms "[]"] by simp
  show ?thesis
    using assms(1) c o
    by (simp add: find_arbitrage_opportunities_def Let_def all_pairs_short raises_short
        sort_reverse_def)
qed

lemma find_arbitrage_opportunities_returns:
  assumes "get_funding_rates h = Inr data" and "distinct (map fst (funding_rates data))"
    and "find_arbitrage_opportunities h symb ms = Inr opps"
  shows "\<not> raises ms (rated symb (funding_rates data))"
    and "opps = sort_reverse spread (all_pairs symb ms (rated symb (funding_rates data)))"
  using find_arbitrage_opportunities_eq[OF assms(1,2), of symb ms] assms(3)
  by (auto split: if_splits)

lemma returns_in_double_range:
  assumes "get_funding_rates h = Inr data" and "distinct (map fst (funding_rates data))"
    and "in_double_range data symb"
  shows "\<exists>opps. find_arbitrage_opportunities h symb ms = Inr opps"
  using find_arbitrage_opportunities_eq[OF assms(1,2), of symb ms] assms(3)
  by (simp add: in_double_range_def not_raises_in_range)

lemma set_sort_reverse: "set (sort_reverse key xs) = set xs"
  by (simp add: sort_reverse_def)

lemma mset_sort_reverse: "mset (sort_reverse key xs) = mset xs"
  by (simp add: sort_reverse_def)

lemma distinct_map_sort_reverse:
  "distinct (map f (sort_reverse key xs)) = distinct (map f xs)"
proof -
  have "mset (map f (sort_reverse key xs)) = mset (map f xs)"
    by (simp add: mset_sort_reverse)
  then show ?thesis by (rule mset_eq_imp_distinct_iff)
qed

lemma sorted_sort_reverse: "sorted_wrt (\<lambda>x y. key x \<ge> key y) (sort_reverse key xs)"
proof -
  have "sorted (map key (sort_key key (rev xs)))" by (rule sorted_sort_key)
  then have "sorted_wrt (\<lambda>x y. key x \<le> key y) (sort_key key (rev xs))"
    by (simp add: sorted_map)
  then show ?thesis
    by (simp add: sort_reverse_def sorted_wrt_rev)
qed

lemma filter_sort_reverse:
  "filter (\<lambda>y. key y = c) (sort_reverse key xs) = filter (\<lambda>y. key y = c) xs"
proof -
  have "filter (\<lambda>y. key y = c) (sort_reverse key xs)
          = rev (filter (\<lambda>y. key y = c) (sort_key key (rev xs)))"
    by (simp add: sort_reverse_def rev_filter)
  also have "\<dots> = rev (filter (\<lambda>y. key y = c) (rev xs))"
    by (simp only: sort_key_stable)
  also have "\<dots> = filter (\<lambda>y. key y = c) xs"
    by (simp add: rev_filter)
  finally show ?thesis .
qed

lemma all_pairs_mem:
  "distinct (map fst ps) \<Longrightarrow> x \<in> set (all_pairs symb ms ps) \<Longrightarrow>
   \<exists>p q. p \<in> set ps \<and> q \<in> set ps \<and> fst p \<noteq> fst q \<and> x = opp_of symb (fst p) (snd p) q
         \<and> float_ge (normalized \<bar>snd p - snd q\<bar>) ms"
proof (induction ps)
  case Nil
  then show ?case by simp
next
  case (Cons a ps)
  from Cons.prems(2) consider
    (hd) "x \<in> set (pairs_with symb ms (fst a) (snd a) ps)" | (tl) "x \<in> set (all_pairs symb ms ps)"
    by auto
  then show ?case
  proof cases
    case hd
    then obtain q where q: "q \<in> set ps" "x = opp_of symb (fst a) (snd a) q"
      "float_ge (normalized \<bar>snd a - snd q\<bar>) ms"
      by (auto simp: pairs_with_def)
    from Cons.prems(1) q(1) have "fst a \<noteq> fst q" by auto
    with q show ?thesis by (intro exI[of _ a] exI[of _ q]) simp
  next
    case tl
    from Cons.prems(1) have "distinct (map fst ps)" by simp
    from Cons.IH[OF this tl] show ?thesis by auto
  qed
qed

lemma all_pairs_exchanges:
  assumes "distinct (map fst ps)" and "x \<in> set (all_pairs symb ms ps)"
  shows "exchange1 x \<in> fst ` set ps" and "exchange2 x \<in> fst ` set ps"
    and "exchange1 x \<noteq> exchange2 x"
proof -
  from all_pairs_mem[OF assms] obtain p q where pq: "p \<in> set ps" "q \<in> set ps"
    "fst p \<noteq> fst q" "x = opp_of symb (fst p) (snd p) q"
    by blast
  from pq(1,4) show "exchange1 x \<in> fst ` set ps" by (simp add: opp_of_def)
  from pq(2,4) show "exchange2 x \<in> fst ` set ps" by (simp add: opp_of_def)
  from pq(3,4) show "exchange1 x \<noteq> exchange2 x" by (simp add: opp_of_def)
qed

lemma all_pairs_distinct:
  "distinct (map fst ps) \<Longrightarrow>
   distinct (map (\<lambda>x. {exchange1 x, exchange2 x}) (all_pairs symb ms ps))"
proof (induction ps)
  case Nil
  then show ?case by simp
next
  case (Cons a ps)
  let ?f = "\<lambda>x. {exchange1 x, exchange2 x}"
  from Cons.prems have d: "distinct (map fst ps)" and fresh: "fst a \<notin> fst ` set ps" by auto
  have inj: "inj_on (\<lambda>q. {fst a, fst q}) (set ps)"
  proof (rule inj_onI)
    fix q q' assume "q \<in> set ps" "q' \<in> set ps" "{fst a, fst q} = {fst a, fst q'}"
    then have "fst q = fst q'" using fresh by (auto simp: doubleton_eq_iff)
    with d \<open>q \<in> set ps\<close> \<open>q' \<in> set ps\<close> show "q = q'"
      by (meson distinct_map inj_onD)
  qed
  have "map ?f (pairs_with symb ms (fst a) (snd a) ps)
          = map (\<lambda>q. {fst a, fst q})
              (filter (\<lambda>p. float_ge (normalized \<bar>snd a - snd p\<bar>) ms) ps)"
    by (simp add: pairs_with_def opp_of_def)
  moreover have "distinct \<dots>"
    using d inj by (auto simp: distinct_map intro: inj_on_subset)
  ultimately have 1: "distinct (map ?f (pairs_with symb ms (fst a) (snd a) ps))" by simp
  have 2: "distinct (map ?f (all_pairs symb ms ps))" using Cons.IH[OF d] .
  have 3: "?f x \<noteq> ?f y" if "x \<in> set (pairs_with symb ms (fst a) (snd a) ps)"
    and "y \<in> set (all_pairs symb ms ps)" for x y
  proof -
    from that(1) have "fst a \<in> ?f x" by (auto simp: pairs_with_def opp_of_def)
    moreover from all_pairs_exchanges(1,2)[OF d that(2)] fresh have "fst a \<notin> ?f y"
      by (metis empty_iff insert_iff)
    ultimately show ?thesis by metis
  qed
  from 1 2 3 show ?case by (auto simp del: insert_iff)
qed

lemma all_pairs_complete:
  "p \<in> set ps \<Longrightarrow> q \<in> set ps \<Longrightarrow> fst p \<noteq> fst q \<Longrightarrow>
   float_ge (normalized \<bar>snd p - snd q\<bar>) ms \<Longrightarrow>
   \<exists>x \<in> set (all_pairs symb ms ps). {exchange1 x, exchange2 x} = {fst p, fst q}"
proof (induction ps)
  case Nil
  then show ?case by simp
next
  case (Cons a ps)
  consider (p) "a = p" "q \<in> set ps" | (q) "a = q" "p \<in> set ps"
    | (tl) "p \<in> set ps" "q \<in> set ps"
    using Cons.prems by auto
  then show ?case
  proof cases
    case p
    with Cons.prems(4) have "opp_of symb (fst p) (snd p) q
        \<in> set (pairs_with symb ms (fst a) (snd a) ps)"
      by (simp add: pairs_with_def)
    moreover have "{exchange1 (opp_of symb (fst p) (snd p) q),
        exchange2 (opp_of symb (fst p) (snd p) q)} = {fst p, fst q}"
      by (simp add: opp_of_def)
    ultimately show ?thesis by (metis UnCI all_pairs.simps(2) set_append)
  next
    case q
    from Cons.prems(4) have "float_ge (normalized \<bar>snd q - snd p\<bar>) ms"
      by (simp add: abs_minus_commute)
    with q have "opp_of symb (fst q) (snd q) p
        \<in> set (pairs_with symb ms (fst a) (snd a) ps)"
      by (simp add: pairs_with_def)
    moreover have "{exchange1 (opp_of symb (fst q) (snd q) p),
        exchange2 (opp_of symb (fst q) (snd q) p)} = {fst p, fst q}"
      by (auto simp: opp_of_def)
    ultimately show ?thesis by (metis UnCI all_pairs.simps(2) set_append)
  next
    case tl
    from Cons.IH[OF tl Cons.prems(3,4)] show ?thesis by auto
  qed
qed

lemma sorted_wrt_index_of:
  "distinct xs \<Longrightarrow> sorted_wrt (\<lambda>x y. index_of xs x < index_of xs y) xs"
proof (induction xs)
  case Nil
  then show ?case by simp
next
  case (Cons a xs)
  then have "sorted_wrt (\<lambda>x y. index_of xs x < index_of xs y) xs" by simp
  then have "sorted_wrt (\<lambda>x y. index_of (a # xs) x < index_of (a # xs) y) xs"
    using Cons.prems by (auto elim!: sorted_wrt_mono_rel[rotated])
  moreover have "\<forall>y \<in> set xs. index_of (a # xs) a < index_of (a # xs) y"
    using Cons.prems by auto
  ultimately show ?case by simp
qed

lemma all_pairs_enum_order:
  "distinct (map fst ps) \<Longrightarrow>
   sorted_wrt (enum_before (map fst ps)) (all_pairs symb ms ps)"
proof (induction ps)
  case Nil
  then show ?case by simp
next
  case (Cons a ps)
  let ?qs = "map fst (a # ps)"
  from Cons.prems have d: "distinct (map fst ps)" and fresh: "fst a \<notin> fst ` set ps" by auto
  have shift: "index_of ?qs e = Suc (index_of (map fst ps) e)" if "e \<in> fst ` set ps" for e
  proof -
    from that fresh have "e \<noteq> fst a" by blast
    then show ?thesis by simp
  qed
  have "sorted_wrt (\<lambda>x y. index_of ?qs x < index_of ?qs y) ?qs"
    using Cons.prems by (rule sorted_wrt_index_of)
  then have "sorted_wrt (\<lambda>q q'. index_of ?qs (fst q) < index_of ?qs (fst q')) ps"
    by (simp add: sorted_wrt_map)
  then have "sorted_wrt (\<lambda>q q'. enum_before ?qs (opp_of symb (fst a) (snd a) q)
                 (opp_of symb (fst a) (snd a) q')) ps"
    by (rule sorted_wrt_mono_rel[rotated]) (simp add: enum_before_def opp_of_def)
  then have 1: "sorted_wrt (enum_before ?qs) (pairs_with symb ms (fst a) (snd a) ps)"
    unfolding pairs_with_def sorted_wrt_map by (rule sorted_wrt_filter)
  have 2: "sorted_wrt (enum_before ?qs) (all_pairs symb ms ps)"
  proof (rule sorted_wrt_mono_rel[OF _ Cons.IH[OF d]])
    fix x y assume "x \<in> set (all_pairs symb ms ps)" "y \<in> set (all_pairs symb ms ps)"
      and "enum_before (map fst ps) x y"
    then show "enum_before ?qs x y"
      using all_pairs_exchanges(1,2)[OF d] shift
      unfolding enum_before_def by (metis Suc_less_eq nat.inject)
  qed
  have 3: "enum_before ?qs x y" if "x \<in> set (pairs_with symb ms (fst a) (snd a) ps)"
    and "y \<in> set (all_pairs symb ms ps)" for x y
  proof -
    from that(1) have "index_of ?qs (exchange1 x) = 0"
      by (auto simp: pairs_with_def opp_of_def)
    moreover have "index_of ?qs (exchange1 y) = Suc (index_of (map fst ps) (exchange1 y))"
      using all_pairs_exchanges(1)[OF d that(2)] by (rule shift)
    ultimately show ?thesis by (simp add: enum_before_def)
  qed
  from 1 2 3 show ?case by (simp add: sorted_wrt_append)
qed

lemma rated_raw_rate:
  assumes "distinct (map fst (funding_rates data))"
  shows "(e, r) \<in> set (rated symb (funding_rates data)) \<longleftrightarrow> raw_rate data e symb = Some r"
proof -
  have "(e, r) \<in> set (rated symb (funding_rates data))
          \<longleftrightarrow> map_of (rated symb (funding_rates data)) e = Some r"
    using distinct_rated[OF assms] by simp
  then show ?thesis
    by (simp add: map_of_rated[OF assms] raw_rate_def)
qed

section \<open>The example inputs, evaluated\<close>

lemma bit_length_numeral:
  "bit_length (numeral (Num.Bit0 n)) = Suc (bit_length (numeral n))"
  "bit_length (numeral (Num.Bit1 n)) = Suc (bit_length (numeral n))"
  "bit_length 1 = Suc 0"
  by (subst bit_length.simps, simp add: numeral_Bit0_div_2 numeral_Bit1_div_2 bit_length_0)+

lemma normalized_values:
  "normalized 0 = 0"
  "normalized 50 = float_0_005"
  "normalized 100 = float_0_01"
  "normalized 200 = float_0_02"
  "normalized 250 = float_0_025"
  "normalized 300 = float_0_03"
  by (simp_all add: normalized_def nearest_double_def float_div_def floor_log2_def
      round_half_even_def bit_length_numeral bit_length_0 bit_length_1 Let_def
      float_0_005_def float_0_01_def float_0_02_def float_0_025_def float_0_03_def)

lemma float_order:
  "0 < float_0_005" "float_0_005 < float_0_01" "float_0_01 < float_0_02"
  "float_0_02 < float_0_025" "float_0_025 < float_0_03"
  by (simp_all add: float_0_005_def float_0_01_def float_0_02_def float_0_025_def float_0_03_def)

lemma small_rates:
  "\<not> too_large 0" "\<not> too_large 50" "\<not> too_large 100" "\<not> too_large 200"
  "\<not> too_large 250" "\<not> too_large 300"
  by (simp_all add: too_large_def)

lemma huge_rate: "too_large (10 ^ 309)"
  by (simp add: too_large_def)


lemma fetch_ok_response: "get_funding_rates (ok_response fr) = Inr (snapshot_of fr)"
  by (simp add: get_funding_rates_def fetch_body_def raise_for_status_def ok_response_def
      snapshot_of_def get_default_def)

lemma example_opps:
  "find_arbitrage_opportunities (ok_response example_rates) ''BTC'' (Finite float_0_01) =
     Inr [opp_of ''BTC'' ''ex_b'' 300 (''ex_c'', 50), opp_of ''BTC'' ''ex_a'' 100 (''ex_b'', 300)]"
  using float_order
  by (simp add: find_arbitrage_opportunities_def fetch_ok_response snapshot_of_def
      example_rates_def enumerate_eq_zip subscript_def sort_reverse_def opp_of_def Let_def
      truediv_10000 small_rates normalized_values)



lemma tied_opps:
  "find_arbitrage_opportunities (ok_response tied_rates) ''BTC'' (Finite 0) =
     Inr [opp_of ''BTC'' ''ex_a'' 100 (''ex_c'', 200), opp_of ''BTC'' ''ex_b'' 100 (''ex_c'', 200),
          opp_of ''BTC'' ''ex_a'' 100 (''ex_b'', 100)]"
  using float_order
  by (simp add: find_arbitrage_opportunities_def fetch_ok_response snapshot_of_def
      tied_rates_def enumerate_eq_zip subscript_def sort_reverse_def opp_of_def Let_def
      truediv_10000 small_rates normalized_values)

lemma huge_opps:
  "find_arbitrage_opportunities (ok_response huge_rates) ''BTC'' (Finite 0) = Inl overflow_error"
  by (simp add: find_arbitrage_opportunities_def fetch_ok_response snapshot_of_def
      huge_rates_def enumerate_eq_zip subscript_def Let_def truediv_10000 too_large_def)

lemma huge_get_rate:
  "get_rate (ok_response huge_rates) ''ex_a'' ''BTC'' = Inl overflow_error"
  by (simp add: get_rate_def fetch_ok_response snapshot_of_def huge_rates_def truediv_10000
      too_large_def)

lemma example_distinct: "distinct (map fst (funding_rates (snapshot_of example_rates)))"
  by (simp add: snapshot_of_def example_rates_def)

lemma tied_distinct: "distinct (map fst (funding_rates (snapshot_of tied_rates)))"
  by (simp add: snapshot_of_def tied_rates_def)

lemma example_raw_rates:
  "raw_rate (snapshot_of example_rates) ''ex_a'' ''BTC'' = Some 100"
  "raw_rate (snapshot_of example_rates) ''ex_b'' ''BTC'' = Some 300"
  "raw_rate (snapshot_of example_rates) ''ex_c'' ''BTC'' = Some 50"
  by (simp_all add: raw_rate_def snapshot_of_def example_rates_def)

lemma tied_raw_rates:
  "raw_rate (snapshot_of tied_rates) ''ex_a'' ''BTC'' = Some 100"
  "raw_rate (snapshot_of tied_rates) ''ex_b'' ''BTC'' = Some 100"
  "raw_rate (snapshot_of tied_rates) ''ex_c'' ''BTC'' = Some 200"
  by (simp_all add: raw_rate_def snapshot_of_def tied_rates_def)

lemma tied_qualifying: "qualifying (snapshot_of tied_rates) ''BTC'' = [''ex_a'', ''ex_b'', ''ex_c'']"
  by (simp add: qualifying_def snapshot_of_def tied_rates_def)

lemma example_in_double_range: "in_double_range (snapshot_of example_rates) ''BTC''"
  by (simp add: in_double_range_def snapshot_of_def example_rates_def too_large_def)

lemma tied_in_double_range: "in_double_range (snapshot_of tied_rates) ''BTC''"
  by (simp add: in_double_range_def snapshot_of_def tied_rates_def too_large_def)

lemma opp_fields:
  "symbol (opp_of symb ex1 r1 p) = symb"
  "exchange1 (opp_of symb ex1 r1 p) = ex1"
  "exchange2 (opp_of symb ex1 r1 p) = fst p"
  "rate1 (opp_of symb ex1 r1 p) = normalized r1"
  "rate2 (opp_of symb ex1 r1 p) = normalized (snd p)"
  "spread (opp_of symb ex1 r1 p) = normalized \<bar>r1 - snd p\<bar>"
  "long_exchange (opp_of symb ex1 r1 p) = (if r1 < snd p then ex1 else fst p)"
  "short_exchange (opp_of symb ex1 r1 p) = (if r1 < snd p then fst p else ex1)"
  by (simp_all add: opp_of_def)

section \<open>The claims\<close>

lemma opportunities_form:
  assumes "get_funding_rates h = Inr data" and "distinct (map fst (funding_rates data))"
    and "find_arbitrage_opportunities h symb ms = Inr opps" and "x \<in> set opps"
  shows "\<exists>e1 r1 e2 r2. raw_rate data e1 symb = Some r1 \<and> raw_rate data e2 symb = Some r2
           \<and> e1 \<noteq> e2 \<and> x = opp_of symb e1 r1 (e2, r2)
           \<and> float_ge (normalized \<bar>r1 - r2\<bar>) ms
           \<and> \<not> too_large r1 \<and> \<not> too_large r2 \<and> \<not> too_large \<bar>r1 - r2\<bar>"
proof -
  let ?ps = "rated symb (funding_rates data)"
  note ret = find_arbitrage_opportunities_returns[OF assms(1,2,3)]
  from ret(2) assms(4) have "x \<in> set (all_pairs symb ms ?ps)"
    by (simp add: set_sort_reverse)
  from all_pairs_mem[OF distinct_rated[OF assms(2)] this]
  obtain p q where pq: "p \<in> set ?ps" "q \<in> set ?ps" "fst p \<noteq> fst q"
    "x = opp_of symb (fst p) (snd p) q" "float_ge (normalized \<bar>snd p - snd q\<bar>) ms"
    by blast
  from pq(3) have "p \<noteq> q" by auto
  from raises_pair[OF pq(1,2) this ret(1)] pq(5)
  have ok: "\<not> too_large (snd p)" "\<not> too_large (snd q)" "\<not> too_large \<bar>snd p - snd q\<bar>"
    by (simp_all add: pair_raises_def)
  from pq(1) have "raw_rate data (fst p) symb = Some (snd p)"
    using rated_raw_rate[OF assms(2), of "fst p" "snd p" symb] by simp
  moreover from pq(2) have "raw_rate data (fst q) symb = Some (snd q)"
    using rated_raw_rate[OF assms(2), of "fst q" "snd q" symb] by simp
  ultimately show ?thesis using pq(3,4,5) ok
    by (intro exI[of _ "fst p"] exI[of _ "snd p"] exI[of _ "fst q"] exI[of _ "snd q"]) simp
qed

text \<open>
  C1, as the code has it. A raw rate \<open>r\<close> stored in the snapshot's \<open>funding_rates\<close>
  table reaches the caller as the float \<open>r / 10000.0\<close>: \<open>get_rate\<close> returns it for the
  exchange and symbol where \<open>r\<close> is stored, and in every returned opportunity \<open>rate1\<close>
  and \<open>rate2\<close> are these floats for the raw rates of \<open>exchange1\<close> and \<open>exchange2\<close>.
  The float is \<open>r\<close> rounded to the nearest double, divided by \<open>10000\<close> and rounded to the
  nearest double: it is within the relative error \<open>3 / 2 ^ 53\<close> of \<open>r / 10000\<close>, and
  below \<open>2 ^ 53\<close> the conversion of \<open>r\<close> is exact, the division is the only rounding
  and the relative error is at most \<open>1 / 2 ^ 53\<close>. A rate of magnitude
  \<open>2 ^ 1024 - 2 ^ 970\<close> or more is too large to convert: \<open>get_rate\<close> raises
  \<open>OverflowError\<close>.
\<close>

theorem normalized_rates:
  assumes "get_funding_rates h = Inr data" and "distinct (map fst (funding_rates data))"
  shows "(\<forall>exchange r. raw_rate data exchange symb = Some r \<longrightarrow>
            get_rate h exchange symb
              = (if too_large r then Inl overflow_error else Inr (Some (normalized r))))
       \<and> (\<forall>opps. find_arbitrage_opportunities h symb min_spread = Inr opps \<longrightarrow>
            (\<forall>x \<in> set opps. \<exists>r1 r2.
                  raw_rate data (exchange1 x) symb = Some r1 \<and> \<not> too_large r1
                \<and> rate1 x = normalized r1
                \<and> raw_rate data (exchange2 x) symb = Some r2 \<and> \<not> too_large r2
                \<and> rate2 x = normalized r2))
       \<and> (\<forall>r. \<bar>normalized r - real_of_int r / 10000\<bar>
                 \<le> 3 * \<bar>real_of_int r / 10000\<bar> / 2 ^ 53)
       \<and> (\<forall>r. \<bar>r\<bar> < 2 ^ 53 \<longrightarrow>
              normalized r = float_div r 10000
            \<and> \<bar>normalized r - real_of_int r / 10000\<bar> \<le> \<bar>real_of_int r / 10000\<bar> / 2 ^ 53)"
proof (intro conjI allI impI ballI)
  fix exchange r assume "raw_rate data exchange symb = Some r"
  with assms(1) show "get_rate h exchange symb
      = (if too_large r then Inl overflow_error else Inr (Some (normalized r)))"
    by (auto simp: get_rate_def raw_rate_def truediv_10000 split: option.splits)
next
  fix opps x
  assume o: "find_arbitrage_opportunities h symb min_spread = Inr opps" and x: "x \<in> set opps"
  from opportunities_form[OF assms o x]
  show "\<exists>r1 r2. raw_rate data (exchange1 x) symb = Some r1 \<and> \<not> too_large r1
                \<and> rate1 x = normalized r1
                \<and> raw_rate data (exchange2 x) symb = Some r2 \<and> \<not> too_large r2
                \<and> rate2 x = normalized r2"
    by (auto simp: opp_fields)
next
  fix r show "\<bar>normalized r - real_of_int r / 10000\<bar> \<le> 3 * \<bar>real_of_int r / 10000\<bar> / 2 ^ 53"
    by (rule normalized_error)
next
  fix r :: int assume "\<bar>r\<bar> < 2 ^ 53"
  then show "normalized r = float_div r 10000"
    and "\<bar>normalized r - real_of_int r / 10000\<bar> \<le> \<bar>real_of_int r / 10000\<bar> / 2 ^ 53"
    by (rule normalized_error_small)+
qed

text \<open>The theorem at a concrete input.\<close>

theorem normalized_rates_witness:
  "get_funding_rates (ok_response example_rates) = Inr (snapshot_of example_rates)
   \<and> distinct (map fst (funding_rates (snapshot_of example_rates)))
   \<and> raw_rate (snapshot_of example_rates) ''ex_b'' ''BTC'' = Some 300
   \<and> \<not> too_large 300
   \<and> get_rate (ok_response example_rates) ''ex_b'' ''BTC'' = Inr (Some float_0_03)
   \<and> find_arbitrage_opportunities (ok_response example_rates) ''BTC'' (Finite float_0_01) =
       Inr [opp_of ''BTC'' ''ex_b'' 300 (''ex_c'', 50), opp_of ''BTC'' ''ex_a'' 100 (''ex_b'', 300)]
   \<and> rate1 (opp_of ''BTC'' ''ex_b'' 300 (''ex_c'', 50)) = float_0_03
   \<and> rate2 (opp_of ''BTC'' ''ex_b'' 300 (''ex_c'', 50)) = float_0_005
   \<and> \<bar>float_0_03 - 300 / 10000\<bar> \<le> \<bar>300 / 10000\<bar> / 2 ^ 53"
proof -
  note inst = normalized_rates[OF fetch_ok_response example_distinct,
      of "''BTC''" "Finite float_0_01"]
  from inst example_raw_rates(2)
  have "get_rate (ok_response example_rates) ''ex_b'' ''BTC''
      = (if too_large 300 then Inl overflow_error else Inr (Some (normalized 300)))"
    by blast
  then have g: "get_rate (ok_response example_rates) ''ex_b'' ''BTC'' = Inr (Some float_0_03)"
    by (simp add: small_rates normalized_values)
  from inst have "\<bar>(300::int)\<bar> < 2 ^ 53 \<longrightarrow>
      \<bar>normalized 300 - real_of_int 300 / 10000\<bar> \<le> \<bar>real_of_int 300 / 10000\<bar> / 2 ^ 53"
    by blast
  then have e: "\<bar>float_0_03 - 300 / 10000\<bar> \<le> \<bar>300 / 10000\<bar> / 2 ^ 53"
    by (simp add: normalized_values)
  show ?thesis
    using fetch_ok_response example_distinct example_raw_rates small_rates g example_opps e
    by (simp add: opp_fields normalized_values)
qed

text \<open>
  C1 as stated fails for a rate beyond the doubles: with the raw rate \<open>10 ^ 309\<close> stored
  for the exchange and the symbol, \<open>get_rate\<close> returns no value, \<open>rate / 10000.0\<close>
  raises \<open>OverflowError\<close>.
\<close>

theorem overflow_counterexample:
  "raw_rate (snapshot_of huge_rates) ''ex_a'' ''BTC'' = Some (10 ^ 309)
   \<and> get_rate (ok_response huge_rates) ''ex_a'' ''BTC''
       = Inl (OverflowError ''int too large to convert to float'')"
  using huge_get_rate
  by (simp add: raw_rate_def snapshot_of_def huge_rates_def overflow_error_def)

text \<open>
  C2. A call of \<open>find_arbitrage_opportunities\<close> returns when the rates of the symbol
  are in the range of the doubles, and every list it returns has no opportunity that
  pairs an exchange with itself and no unordered pair of exchanges twice; the exchanges
  of every opportunity are qualifying exchanges, and when the spread filter lets
  everything through (\<open>0 >= min_spread\<close>) every unordered pair of distinct qualifying
  exchanges is in the list.
\<close>

theorem pairs_exactly_once:
  assumes "get_funding_rates h = Inr data" and "distinct (map fst (funding_rates data))"
  shows "(in_double_range data symb \<longrightarrow>
            (\<exists>opps. find_arbitrage_opportunities h symb min_spread = Inr opps))
       \<and> (\<forall>opps. find_arbitrage_opportunities h symb min_spread = Inr opps \<longrightarrow>
              (\<forall>x \<in> set opps. exchange1 x \<noteq> exchange2 x)
            \<and> distinct (map (\<lambda>x. {exchange1 x, exchange2 x}) opps)
            \<and> (\<forall>x \<in> set opps. exchange1 x \<in> set (qualifying data symb)
                               \<and> exchange2 x \<in> set (qualifying data symb))
            \<and> (float_ge 0 min_spread \<longrightarrow>
                 (\<forall>a \<in> set (qualifying data symb). \<forall>b \<in> set (qualifying data symb).
                    a \<noteq> b \<longrightarrow> (\<exists>x \<in> set opps. {exchange1 x, exchange2 x} = {a, b}))))"
proof (intro conjI allI impI)
  assume "in_double_range data symb"
  with assms show "\<exists>opps. find_arbitrage_opportunities h symb min_spread = Inr opps"
    by (rule returns_in_double_range)
next
  fix opps assume o: "find_arbitrage_opportunities h symb min_spread = Inr opps"
  let ?ps = "rated symb (funding_rates data)"
  have d: "distinct (map fst ?ps)" using assms(2) by (rule distinct_rated)
  from find_arbitrage_opportunities_returns(2)[OF assms o]
  have eq: "opps = sort_reverse spread (all_pairs symb min_spread ?ps)" .
  show "\<forall>x \<in> set opps. exchange1 x \<noteq> exchange2 x"
    using all_pairs_exchanges(3)[OF d] by (simp add: eq set_sort_reverse)
  show "distinct (map (\<lambda>x. {exchange1 x, exchange2 x}) opps)"
    using all_pairs_distinct[OF d] by (simp add: eq distinct_map_sort_reverse)
  show "\<forall>x \<in> set opps. exchange1 x \<in> set (qualifying data symb)
                          \<and> exchange2 x \<in> set (qualifying data symb)"
    using all_pairs_exchanges(1,2)[OF d] by (simp add: eq set_sort_reverse qualifying_def)
  assume ms: "float_ge 0 min_spread"
  show "\<forall>a \<in> set (qualifying data symb). \<forall>b \<in> set (qualifying data symb).
          a \<noteq> b \<longrightarrow> (\<exists>x \<in> set opps. {exchange1 x, exchange2 x} = {a, b})"
  proof (intro ballI impI)
    fix a b
    assume "a \<in> set (qualifying data symb)" "b \<in> set (qualifying data symb)" and ne: "a \<noteq> b"
    then obtain p q where pq: "p \<in> set ?ps" "q \<in> set ?ps" "fst p = a" "fst q = b"
      by (auto simp: qualifying_def)
    have "0 \<le> normalized \<bar>snd p - snd q\<bar>" by (rule normalized_nonneg) simp
    with ms have "float_ge (normalized \<bar>snd p - snd q\<bar>) min_spread" by (rule float_ge_mono)
    from all_pairs_complete[OF pq(1,2) _ this, of symb] pq(3,4) ne
    show "\<exists>x \<in> set opps. {exchange1 x, exchange2 x} = {a, b}"
      by (simp add: eq set_sort_reverse)
  qed
qed

text \<open>The theorem at a concrete input.\<close>

theorem pairs_exactly_once_witness:
  "get_funding_rates (ok_response tied_rates) = Inr (snapshot_of tied_rates)
   \<and> distinct (map fst (funding_rates (snapshot_of tied_rates)))
   \<and> in_double_range (snapshot_of tied_rates) ''BTC''
   \<and> find_arbitrage_opportunities (ok_response tied_rates) ''BTC'' (Finite 0) =
       Inr [opp_of ''BTC'' ''ex_a'' 100 (''ex_c'', 200), opp_of ''BTC'' ''ex_b'' 100 (''ex_c'', 200),
            opp_of ''BTC'' ''ex_a'' 100 (''ex_b'', 100)]
   \<and> distinct [{''ex_a'', ''ex_c''}, {''ex_b'', ''ex_c''}, {''ex_a'', ''ex_b''}]"
proof -
  from pairs_exactly_once[OF fetch_ok_response tied_distinct, of "''BTC''" "Finite 0"]
  have "distinct (map (\<lambda>x. {exchange1 x, exchange2 x})
          [opp_of ''BTC'' ''ex_a'' 100 (''ex_c'', 200), opp_of ''BTC'' ''ex_b'' 100 (''ex_c'', 200),
           opp_of ''BTC'' ''ex_a'' 100 (''ex_b'', 100)])"
    using tied_opps by blast
  then have "distinct [{''ex_a'', ''ex_c''}, {''ex_b'', ''ex_c''}, {''ex_a'', ''ex_b''}]"
    by (simp add: opp_fields)
  then show ?thesis
    using fetch_ok_response tied_distinct tied_in_double_range tied_opps by simp
qed



text \<open>
  C4. Every returned list is in descending order of spread, and the opportunities of any
  one spread are in enumeration order: by the position of the first exchange in the list
  of qualifying exchanges, then by the position of the second. The call returns when the
  rates of the symbol are in the range of the doubles.
\<close>

theorem sorted_descending_stable:
  assumes "get_funding_rates h = Inr data" and "distinct (map fst (funding_rates data))"
  shows "(in_double_range data symb \<longrightarrow>
            (\<exists>opps. find_arbitrage_opportunities h symb min_spread = Inr opps))
       \<and> (\<forall>opps. find_arbitrage_opportunities h symb min_spread = Inr opps \<longrightarrow>
              sorted_wrt (\<lambda>x y. spread x \<ge> spread y) opps
            \<and> (\<forall>k. sorted_wrt (enum_before (qualifying data symb))
                      (filter (\<lambda>x. spread x = k) opps)))"
proof (intro conjI allI impI)
  assume "in_double_range data symb"
  with assms show "\<exists>opps. find_arbitrage_opportunities h symb min_spread = Inr opps"
    by (rule returns_in_double_range)
next
  fix opps k assume o: "find_arbitrage_opportunities h symb min_spread = Inr opps"
  let ?xs = "all_pairs symb min_spread (rated symb (funding_rates data))"
  from find_arbitrage_opportunities_returns(2)[OF assms o]
  have eq: "opps = sort_reverse spread ?xs" .
  show "sorted_wrt (\<lambda>x y. spread x \<ge> spread y) opps"
    unfolding eq by (rule sorted_sort_reverse)
  have "sorted_wrt (enum_before (qualifying data symb)) ?xs"
    unfolding qualifying_def
    using distinct_rated[OF assms(2)] by (rule all_pairs_enum_order)
  then show "sorted_wrt (enum_before (qualifying data symb)) (filter (\<lambda>x. spread x = k) opps)"
    by (simp only: eq filter_sort_reverse sorted_wrt_filter)
qed

text \<open>The theorem at a concrete input.\<close>

theorem sorted_descending_stable_witness:
  "get_funding_rates (ok_response tied_rates) = Inr (snapshot_of tied_rates)
   \<and> distinct (map fst (funding_rates (snapshot_of tied_rates)))
   \<and> in_double_range (snapshot_of tied_rates) ''BTC''
   \<and> find_arbitrage_opportunities (ok_response tied_rates) ''BTC'' (Finite 0) =
       Inr [opp_of ''BTC'' ''ex_a'' 100 (''ex_c'', 200), opp_of ''BTC'' ''ex_b'' 100 (''ex_c'', 200),
            opp_of ''BTC'' ''ex_a'' 100 (''ex_b'', 100)]
   \<and> spread (opp_of ''BTC'' ''ex_a'' 100 (''ex_c'', 200)) = float_0_01
   \<and> spread (opp_of ''BTC'' ''ex_b'' 100 (''ex_c'', 200)) = float_0_01
   \<and> spread (opp_of ''BTC'' ''ex_a'' 100 (''ex_b'', 100)) = 0
   \<and> enum_before [''ex_a'', ''ex_b'', ''ex_c'']
        (opp_of ''BTC'' ''ex_a'' 100 (''ex_c'', 200)) (opp_of ''BTC'' ''ex_b'' 100 (''ex_c'', 200))"
proof -
  let ?ac = "opp_of ''BTC'' ''ex_a'' 100 (''ex_c'', 200)"
  let ?bc = "opp_of ''BTC'' ''ex_b'' 100 (''ex_c'', 200)"
  let ?ab = "opp_of ''BTC'' ''ex_a'' 100 (''ex_b'', 100)"
  have sp: "spread ?ac = float_0_01" "spread ?bc = float_0_01" "spread ?ab = 0"
    by (simp_all add: opp_fields normalized_values)
  from sorted_descending_stable[OF fetch_ok_response tied_distinct, of "''BTC''" "Finite 0"]
  have "\<forall>opps. find_arbitrage_opportunities (ok_response tied_rates) ''BTC'' (Finite 0) = Inr opps \<longrightarrow>
      sorted_wrt (\<lambda>x y. spread x \<ge> spread y) opps
    \<and> (\<forall>k. sorted_wrt (enum_before (qualifying (snapshot_of tied_rates) ''BTC''))
              (filter (\<lambda>x. spread x = k) opps))"
    by (rule conjunct2)
  from this[rule_format, OF tied_opps]
  have "sorted_wrt (enum_before (qualifying (snapshot_of tied_rates) ''BTC''))
          (filter (\<lambda>x. spread x = float_0_01) [?ac, ?bc, ?ab])"
    by (elim conjE allE[of _ float_0_01])
  moreover have "float_0_01 \<noteq> 0" using float_order by simp
  ultimately have "enum_before [''ex_a'', ''ex_b'', ''ex_c''] ?ac ?bc"
    by (simp add: tied_qualifying sp)
  then show ?thesis
    using fetch_ok_response tied_distinct tied_in_double_range tied_opps sp by simp
qed

text \<open>
  C5. In every returned opportunity the exchange of the pair with the lower raw rate is
  \<open>long_exchange\<close> and the other one is \<open>short_exchange\<close>. The call returns when the
  rates of the symbol are in the range of the doubles.
\<close>

theorem lower_rate_is_long:
  assumes "get_funding_rates h = Inr data" and "distinct (map fst (funding_rates data))"
  shows "(in_double_range data symb \<longrightarrow>
            (\<exists>opps. find_arbitrage_opportunities h symb min_spread = Inr opps))
       \<and> (\<forall>opps. find_arbitrage_opportunities h symb min_spread = Inr opps \<longrightarrow>
            (\<forall>x \<in> set opps. \<exists>r1 r2.
                 raw_rate data (exchange1 x) symb = Some r1
               \<and> raw_rate data (exchange2 x) symb = Some r2
               \<and> (r1 < r2 \<longrightarrow> long_exchange x = exchange1 x \<and> short_exchange x = exchange2 x)
               \<and> (r2 < r1 \<longrightarrow> long_exchange x = exchange2 x \<and> short_exchange x = exchange1 x)))"
proof (intro conjI allI impI ballI)
  assume "in_double_range data symb"
  with assms show "\<exists>opps. find_arbitrage_opportunities h symb min_spread = Inr opps"
    by (rule returns_in_double_range)
next
  fix opps x
  assume o: "find_arbitrage_opportunities h symb min_spread = Inr opps" and x: "x \<in> set opps"
  from opportunities_form[OF assms o x]
  obtain e1 r1 e2 r2 where f: "raw_rate data e1 symb = Some r1"
    "raw_rate data e2 symb = Some r2" "x = opp_of symb e1 r1 (e2, r2)"
    by blast
  show "\<exists>r1 r2. raw_rate data (exchange1 x) symb = Some r1
           \<and> raw_rate data (exchange2 x) symb = Some r2
           \<and> (r1 < r2 \<longrightarrow> long_exchange x = exchange1 x \<and> short_exchange x = exchange2 x)
           \<and> (r2 < r1 \<longrightarrow> long_exchange x = exchange2 x \<and> short_exchange x = exchange1 x)"
    using f(1,2) unfolding f(3)
    by (intro exI[of _ r1] exI[of _ r2]) (simp add: opp_fields)
qed

text \<open>The theorem at a concrete input.\<close>

theorem lower_rate_is_long_witness:
  "get_funding_rates (ok_response example_rates) = Inr (snapshot_of example_rates)
   \<and> distinct (map fst (funding_rates (snapshot_of example_rates)))
   \<and> in_double_range (snapshot_of example_rates) ''BTC''
   \<and> find_arbitrage_opportunities (ok_response example_rates) ''BTC'' (Finite float_0_01) =
       Inr [opp_of ''BTC'' ''ex_b'' 300 (''ex_c'', 50), opp_of ''BTC'' ''ex_a'' 100 (''ex_b'', 300)]
   \<and> raw_rate (snapshot_of example_rates) ''ex_b'' ''BTC'' = Some 300
   \<and> raw_rate (snapshot_of example_rates) ''ex_c'' ''BTC'' = Some 50
   \<and> exchange1 (opp_of ''BTC'' ''ex_b'' 300 (''ex_c'', 50)) = ''ex_b''
   \<and> exchange2 (opp_of ''BTC'' ''ex_b'' 300 (''ex_c'', 50)) = ''ex_c''
   \<and> long_exchange (opp_of ''BTC'' ''ex_b'' 300 (''ex_c'', 50)) = ''ex_c''
   \<and> short_exchange (opp_of ''BTC'' ''ex_b'' 300 (''ex_c'', 50)) = ''ex_b''"
proof -
  let ?x = "opp_of ''BTC'' ''ex_b'' 300 (''ex_c'', 50)"
  have e: "exchange1 ?x = ''ex_b''" "exchange2 ?x = ''ex_c''"
    by (simp_all add: opp_fields)
  from lower_rate_is_long[OF fetch_ok_response example_distinct, of "''BTC''" "Finite float_0_01"]
  have "\<forall>opps. find_arbitrage_opportunities (ok_response example_rates) ''BTC''
          (Finite float_0_01) = Inr opps \<longrightarrow>
        (\<forall>x \<in> set opps. \<exists>r1 r2.
             raw_rate (snapshot_of example_rates) (exchange1 x) ''BTC'' = Some r1
           \<and> raw_rate (snapshot_of example_rates) (exchange2 x) ''BTC'' = Some r2
           \<and> (r1 < r2 \<longrightarrow> long_exchange x = exchange1 x \<and> short_exchange x = exchange2 x)
           \<and> (r2 < r1 \<longrightarrow> long_exchange x = exchange2 x \<and> short_exchange x = exchange1 x))"
    by (rule conjunct2)
  from this[rule_format, OF example_opps, of ?x]
  have "\<exists>r1 r2. raw_rate (snapshot_of example_rates) ''ex_b'' ''BTC'' = Some r1
        \<and> raw_rate (snapshot_of example_rates) ''ex_c'' ''BTC'' = Some r2
        \<and> (r1 < r2 \<longrightarrow> long_exchange ?x = ''ex_b'' \<and> short_exchange ?x = ''ex_c'')
        \<and> (r2 < r1 \<longrightarrow> long_exchange ?x = ''ex_c'' \<and> short_exchange ?x = ''ex_b'')"
    by (simp add: e)
  then have "long_exchange ?x = ''ex_c'' \<and> short_exchange ?x = ''ex_b''"
    by (simp add: example_raw_rates)
  then show ?thesis
    using fetch_ok_response example_distinct example_in_double_range example_opps
      example_raw_rates e by simp
qed

text \<open>
  C6. When the exchange is not a key of \<open>funding_rates\<close>, or the symbol is not a key of
  that exchange's rate table, \<open>get_rate\<close> returns \<open>None\<close> and raises nothing.
\<close>

theorem get_rate_not_found:
  assumes "get_funding_rates h = Inr data"
    and "map_of (funding_rates data) exchange = None
         \<or> (\<exists>syms. map_of (funding_rates data) exchange = Some syms \<and> map_of syms symb = None)"
  shows "get_rate h exchange symb = Inr None"
  using assms by (auto simp: get_rate_def)

text \<open>The theorem at a concrete input.\<close>

theorem get_rate_not_found_witness:
  "get_funding_rates (ok_response example_rates) = Inr (snapshot_of example_rates)
   \<and> map_of (funding_rates (snapshot_of example_rates)) ''ex_z'' = None
   \<and> get_rate (ok_response example_rates) ''ex_z'' ''BTC'' = Inr None
   \<and> map_of (funding_rates (snapshot_of example_rates)) ''ex_a'' = Some [(''BTC'', 100)]
   \<and> map_of [(''BTC'', 100 :: int)] ''ETH'' = None
   \<and> get_rate (ok_response example_rates) ''ex_a'' ''ETH'' = Inr None"
proof -
  have f: "get_funding_rates (ok_response example_rates) = Inr (snapshot_of example_rates)"
    by (rule fetch_ok_response)
  have a: "map_of (funding_rates (snapshot_of example_rates)) ''ex_z'' = None"
    by (simp add: snapshot_of_def example_rates_def)
  have b: "map_of (funding_rates (snapshot_of example_rates)) ''ex_a'' = Some [(''BTC'', 100)]"
    by (simp add: snapshot_of_def example_rates_def)
  have c: "map_of [(''BTC'', 100 :: int)] ''ETH'' = None" by simp
  from a have 1: "get_rate (ok_response example_rates) ''ex_z'' ''BTC'' = Inr None"
    by (intro get_rate_not_found[OF f]) simp
  from b c have 2: "get_rate (ok_response example_rates) ''ex_a'' ''ETH'' = Inr None"
    by (intro get_rate_not_found[OF f]) simp
  from f a b c 1 2 show ?thesis by simp
qed

text \<open>
  C7. When fewer than two rate tables of the snapshot contain the symbol,
  \<open>find_arbitrage_opportunities\<close> returns the empty list and raises nothing, whatever
  \<open>min_spread\<close> is.
\<close>

theorem fewer_than_two_exchanges:
  assumes "get_funding_rates h = Inr data"
    and "length (filter (\<lambda>(exchange, syms). map_of syms symb \<noteq> None) (funding_rates data)) < 2"
  shows "find_arbitrage_opportunities h symb min_spread = Inr []"
proof -
  have "length (rated symb items) = length (filter (\<lambda>(exchange, syms). map_of syms symb \<noteq> None) items)"
    for items
    by (induction symb items rule: rated.induct) (auto split: option.splits)
  with assms(2) length_collect_rates[of symb "funding_rates data" "[]"]
  have "length (collect_rates symb (funding_rates data) []) < 2" by simp
  with assms(1) show ?thesis
    by (simp add: find_arbitrage_opportunities_def)
qed

text \<open>The theorem at a concrete input.\<close>

theorem fewer_than_two_exchanges_witness:
  "get_funding_rates (ok_response tied_rates) = Inr (snapshot_of tied_rates)
   \<and> length (filter (\<lambda>(exchange, syms). map_of syms ''ETH'' \<noteq> None)
        (funding_rates (snapshot_of tied_rates))) = 1
   \<and> find_arbitrage_opportunities (ok_response tied_rates) ''ETH'' (Finite (- 5)) = Inr []"
proof -
  have f: "get_funding_rates (ok_response tied_rates) = Inr (snapshot_of tied_rates)"
    by (rule fetch_ok_response)
  have n: "length (filter (\<lambda>(exchange, syms). map_of syms ''ETH'' \<noteq> None)
        (funding_rates (snapshot_of tied_rates))) = 1"
    by (simp add: snapshot_of_def tied_rates_def)
  then have "length (filter (\<lambda>(exchange, syms). map_of syms ''ETH'' \<noteq> None)
        (funding_rates (snapshot_of tied_rates))) < 2" by simp
  from fewer_than_two_exchanges[OF f this, of "Finite (- 5)"] f n show ?thesis by simp
qed

text \<open>
  C8, as the code has it. For a response with a 2xx status whose body decodes to a JSON
  object, every absent top-level key gets its default in the snapshot: the empty
  container for \<open>symbols\<close>, \<open>exchanges\<close>, \<open>funding_rates\<close> and \<open>oi_rankings\<close>,
  \<open>500+\<close> for \<open>default_oi_rank\<close> and the empty string for \<open>timestamp\<close>.
\<close>

theorem absent_fields_default:
  assumes "200 \<le> status_code r" and "status_code r < 300"
    and "json_result r = Inr (JSONObject body)"
  shows "\<exists>d. get_funding_rates (Inr r) = Inr d
     \<and> (symbols_entry body = None \<longrightarrow> symbols d = [])
     \<and> (exchanges_entry body = None \<longrightarrow> exchanges d = [])
     \<and> (funding_rates_entry body = None \<longrightarrow> funding_rates d = [])
     \<and> (oi_rankings_entry body = None \<longrightarrow> oi_rankings d = [])
     \<and> (default_oi_rank_entry body = None \<longrightarrow> default_oi_rank d = ''500+'')
     \<and> (timestamp_entry body = None \<longrightarrow> timestamp d = '''')"
  using assms
  by (simp add: get_funding_rates_def fetch_body_def raise_for_status_def get_default_def)

text \<open>The theorem at a concrete input.\<close>

theorem absent_fields_default_witness:
  "(200::nat) \<le> 200 \<and> (200::nat) < 300
   \<and> get_funding_rates (Inr \<lparr> status_code = 200, json_result = Inr (JSONObject empty_payload) \<rparr>)
       = Inr \<lparr> symbols = [], exchanges = [], funding_rates = [], oi_rankings = [],
               default_oi_rank = ''500+'', timestamp = '''' \<rparr>"
proof -
  let ?r = "\<lparr> status_code = 200, json_result = Inr (JSONObject empty_payload) \<rparr>"
  have "200 \<le> status_code ?r" "status_code ?r < 300"
    "json_result ?r = Inr (JSONObject empty_payload)" by simp_all
  from absent_fields_default[OF this] obtain d where d: "get_funding_rates (Inr ?r) = Inr d"
    "symbols d = []" "exchanges d = []" "funding_rates d = []" "oi_rankings d = []"
    "default_oi_rank d = ''500+''" "timestamp d = ''''"
    by (auto simp: empty_payload_def)
  from d(1) have "FundingRatesData.more d = ()" by simp
  with d show ?thesis by (cases d) simp
qed

text \<open>
  C8 as stated fails for a body that is not an object: a response with status 200 whose
  body is the JSON value \<open>null\<close> decodes to \<open>None\<close>, which has no key and no method
  \<open>get\<close>; no snapshot is built, the caller sees \<open>AttributeError\<close>.
\<close>

theorem null_body_counterexample:
  "get_funding_rates (Inr \<lparr> status_code = 200, json_result = Inr (JSONOther ''NoneType'') \<rparr>)
     = Inl (AttributeError
         ([CHR 0x27] @ ''NoneType'' @ [CHR 0x27] @ '' object has no attribute ''
            @ [CHR 0x27] @ ''get'' @ [CHR 0x27]))"
  by (simp add: get_funding_rates_def fetch_body_def raise_for_status_def)

text \<open>
  C9, as the code has it. A \<open>RequestException\<close>, \<open>KeyError\<close> or \<open>ValueError\<close> raised
  by \<open>session.get\<close> or by \<open>response.json()\<close> surfaces as \<open>onlyfundingError\<close> with the
  message of its cause, and a response with a 4xx or 5xx status gives the
  transport-failure kind (\<open>Failed to fetch funding rates\<close>), not the malformed-response
  kind (\<open>Invalid API response\<close>).
\<close>

theorem fetch_failures_wrapped:
  "get_funding_rates (Inl (RequestException m))
     = Inl (onlyfundingError (''Failed to fetch funding rates: '' @ m))
   \<and> get_funding_rates (Inl (KeyError m)) = Inl (onlyfundingError (''Invalid API response: '' @ m))
   \<and> get_funding_rates (Inl (ValueError m)) = Inl (onlyfundingError (''Invalid API response: '' @ m))
   \<and> (400 \<le> status_code r \<and> status_code r < 600 \<longrightarrow>
        (\<exists>m'. get_funding_rates (Inr r)
                = Inl (onlyfundingError (''Failed to fetch funding rates: '' @ m'))))
   \<and> (\<not> (400 \<le> status_code r \<and> status_code r < 600) \<longrightarrow>
        (json_result r = Inl (RequestException m) \<longrightarrow>
           get_funding_rates (Inr r)
             = Inl (onlyfundingError (''Failed to fetch funding rates: '' @ m)))
      \<and> (json_result r = Inl (KeyError m) \<or> json_result r = Inl (ValueError m) \<longrightarrow>
           get_funding_rates (Inr r) = Inl (onlyfundingError (''Invalid API response: '' @ m))))"
proof (intro conjI impI)
  show "get_funding_rates (Inl (RequestException m))
      = Inl (onlyfundingError (''Failed to fetch funding rates: '' @ m))"
    and "get_funding_rates (Inl (KeyError m))
      = Inl (onlyfundingError (''Invalid API response: '' @ m))"
    and "get_funding_rates (Inl (ValueError m))
      = Inl (onlyfundingError (''Invalid API response: '' @ m))"
    by (simp_all add: get_funding_rates_def fetch_body_def)
next
  assume "400 \<le> status_code r \<and> status_code r < 600"
  then have "\<exists>m'. raise_for_status r = Inl (RequestException m')"
    by (cases "status_code r < 500") (simp_all add: raise_for_status_def)
  then obtain m' where "raise_for_status r = Inl (RequestException m')" ..
  then have "get_funding_rates (Inr r)
      = Inl (onlyfundingError (''Failed to fetch funding rates: '' @ m'))"
    by (simp add: get_funding_rates_def fetch_body_def)
  then show "\<exists>m'. get_funding_rates (Inr r)
      = Inl (onlyfundingError (''Failed to fetch funding rates: '' @ m'))" ..
next
  assume "\<not> (400 \<le> status_code r \<and> status_code r < 600)"
  then have ok: "raise_for_status r = Inr ()"
    by (auto simp: raise_for_status_def)
  {
    assume "json_result r = Inl (RequestException m)"
    with ok show "get_funding_rates (Inr r)
        = Inl (onlyfundingError (''Failed to fetch funding rates: '' @ m))"
      by (simp add: get_funding_rates_def fetch_body_def)
  next
    assume "json_result r = Inl (KeyError m) \<or> json_result r = Inl (ValueError m)"
    with ok show "get_funding_rates (Inr r)
        = Inl (onlyfundingError (''Invalid API response: '' @ m))"
      by (auto simp: get_funding_rates_def fetch_body_def)
  }
qed

text \<open>The theorem at a concrete input.\<close>

theorem fetch_failures_wrapped_witness:
  "get_funding_rates (Inr \<lparr> status_code = 404, json_result = Inr (JSONObject empty_payload) \<rparr>)
     = Inl (onlyfundingError ''Failed to fetch funding rates: Client Error'')
   \<and> get_funding_rates (Inr \<lparr> status_code = 200, json_result = Inl (ValueError ''Expecting value'') \<rparr>)
     = Inl (onlyfundingError ''Invalid API response: Expecting value'')"
proof -
  let ?r = "\<lparr> status_code = 404, json_result = Inr (JSONObject empty_payload) \<rparr>"
  let ?s = "\<lparr> status_code = 200, json_result = Inl (ValueError ''Expecting value'') \<rparr>"
  from fetch_failures_wrapped[of "''Expecting value''" ?s]
  have 1: "get_funding_rates (Inr ?s)
      = Inl (onlyfundingError (''Invalid API response: '' @ ''Expecting value''))"
    by simp
  have 2: "get_funding_rates (Inr ?r)
      = Inl (onlyfundingError ''Failed to fetch funding rates: Client Error'')"
    by (simp add: get_funding_rates_def fetch_body_def raise_for_status_def)
  from 1 2 show ?thesis by simp
qed

text \<open>
  C9 as stated fails at two inputs. A response with status 300 (not 2xx) whose body is
  the JSON object \<open>{}\<close> raises nothing, since \<open>raise_for_status\<close> raises for 4xx and
  5xx only: the client returns the snapshot of defaults. A response with status 200
  whose body is the JSON array \<open>[]\<close> makes \<open>data.get\<close> raise \<open>AttributeError\<close>, which
  neither \<open>except\<close> clause matches: the caller sees it as it is.
\<close>

theorem fetch_counterexample:
  "get_funding_rates (Inr \<lparr> status_code = 300, json_result = Inr (JSONObject empty_payload) \<rparr>)
     = Inr \<lparr> symbols = [], exchanges = [], funding_rates = [], oi_rankings = [],
             default_oi_rank = ''500+'', timestamp = '''' \<rparr>
   \<and> get_funding_rates (Inr \<lparr> status_code = 200, json_result = Inr (JSONOther ''list'') \<rparr>)
     = Inl (AttributeError
         ([CHR 0x27] @ ''list'' @ [CHR 0x27] @ '' object has no attribute ''
            @ [CHR 0x27] @ ''get'' @ [CHR 0x27]))"
  by (simp add: get_funding_rates_def fetch_body_def raise_for_status_def empty_payload_def
      get_default_def)

text \<open>
  C10. In every returned opportunity \<open>long_exchange\<close> and \<open>short_exchange\<close> are
  distinct, they are the two exchanges of the pair, the raw rate of \<open>long_exchange\<close> is
  at most the raw rate of \<open>short_exchange\<close>, and when the two raw rates are equal
  \<open>exchange2\<close> is \<open>long_exchange\<close> and \<open>exchange1\<close> is \<open>short_exchange\<close>. The call
  returns when the rates of the symbol are in the range of the doubles.
\<close>

theorem long_short_assignment:
  assumes "get_funding_rates h = Inr data" and "distinct (map fst (funding_rates data))"
  shows "(in_double_range data symb \<longrightarrow>
            (\<exists>opps. find_arbitrage_opportunities h symb min_spread = Inr opps))
       \<and> (\<forall>opps. find_arbitrage_opportunities h symb min_spread = Inr opps \<longrightarrow>
            (\<forall>x \<in> set opps.
                 long_exchange x \<noteq> short_exchange x
               \<and> {long_exchange x, short_exchange x} = {exchange1 x, exchange2 x}
               \<and> (\<exists>rl rs. raw_rate data (long_exchange x) symb = Some rl
                      \<and> raw_rate data (short_exchange x) symb = Some rs \<and> rl \<le> rs)
               \<and> (raw_rate data (exchange1 x) symb = raw_rate data (exchange2 x) symb \<longrightarrow>
                     long_exchange x = exchange2 x \<and> short_exchange x = exchange1 x)))"
proof (intro conjI allI impI ballI)
  assume "in_double_range data symb"
  with assms show "\<exists>opps. find_arbitrage_opportunities h symb min_spread = Inr opps"
    by (rule returns_in_double_range)
next
  fix opps x
  assume o: "find_arbitrage_opportunities h symb min_spread = Inr opps" and x: "x \<in> set opps"
  from opportunities_form[OF assms o x]
  obtain e1 r1 e2 r2 where f: "raw_rate data e1 symb = Some r1"
    "raw_rate data e2 symb = Some r2" "e1 \<noteq> e2" "x = opp_of symb e1 r1 (e2, r2)"
    by blast
  have all: "long_exchange x \<noteq> short_exchange x
               \<and> {long_exchange x, short_exchange x} = {exchange1 x, exchange2 x}
               \<and> (\<exists>rl rs. raw_rate data (long_exchange x) symb = Some rl
                      \<and> raw_rate data (short_exchange x) symb = Some rs \<and> rl \<le> rs)
               \<and> (raw_rate data (exchange1 x) symb = raw_rate data (exchange2 x) symb \<longrightarrow>
                     long_exchange x = exchange2 x \<and> short_exchange x = exchange1 x)"
  proof (cases "r1 < r2")
    case True
    with f show ?thesis by (simp add: opp_fields)
  next
    case False
    with f show ?thesis by (simp add: opp_fields insert_commute)
  qed
  from all show "long_exchange x \<noteq> short_exchange x"
    and "{long_exchange x, short_exchange x} = {exchange1 x, exchange2 x}"
    and "\<exists>rl rs. raw_rate data (long_exchange x) symb = Some rl
                      \<and> raw_rate data (short_exchange x) symb = Some rs \<and> rl \<le> rs"
    by simp_all
  assume "raw_rate data (exchange1 x) symb = raw_rate data (exchange2 x) symb"
  with all show "long_exchange x = exchange2 x" and "short_exchange x = exchange1 x"
    by simp_all
qed

text \<open>The theorem at a concrete input.\<close>

theorem long_short_assignment_witness:
  "get_funding_rates (ok_response tied_rates) = Inr (snapshot_of tied_rates)
   \<and> distinct (map fst (funding_rates (snapshot_of tied_rates)))
   \<and> in_double_range (snapshot_of tied_rates) ''BTC''
   \<and> find_arbitrage_opportunities (ok_response tied_rates) ''BTC'' (Finite 0) =
       Inr [opp_of ''BTC'' ''ex_a'' 100 (''ex_c'', 200), opp_of ''BTC'' ''ex_b'' 100 (''ex_c'', 200),
            opp_of ''BTC'' ''ex_a'' 100 (''ex_b'', 100)]
   \<and> raw_rate (snapshot_of tied_rates) ''ex_a'' ''BTC'' = Some 100
   \<and> raw_rate (snapshot_of tied_rates) ''ex_b'' ''BTC'' = Some 100
   \<and> exchange1 (opp_of ''BTC'' ''ex_a'' 100 (''ex_b'', 100)) = ''ex_a''
   \<and> exchange2 (opp_of ''BTC'' ''ex_a'' 100 (''ex_b'', 100)) = ''ex_b''
   \<and> long_exchange (opp_of ''BTC'' ''ex_a'' 100 (''ex_b'', 100)) = ''ex_b''
   \<and> short_exchange (opp_of ''BTC'' ''ex_a'' 100 (''ex_b'', 100)) = ''ex_a''"
proof -
  let ?x = "opp_of ''BTC'' ''ex_a'' 100 (''ex_b'', 100)"
  have e: "exchange1 ?x = ''ex_a''" "exchange2 ?x = ''ex_b''"
    by (simp_all add: opp_fields)
  from long_short_assignment[OF fetch_ok_response tied_distinct, of "''BTC''" "Finite 0"]
  have "\<forall>opps. find_arbitrage_opportunities (ok_response tied_rates) ''BTC'' (Finite 0)
          = Inr opps \<longrightarrow>
        (\<forall>x \<in> set opps.
             long_exchange x \<noteq> short_exchange x
           \<and> {long_exchange x, short_exchange x} = {exchange1 x, exchange2 x}
           \<and> (\<exists>rl rs. raw_rate (snapshot_of tied_rates) (long_exchange x) ''BTC'' = Some rl
                  \<and> raw_rate (snapshot_of tied_rates) (short_exchange x) ''BTC'' = Some rs
                  \<and> rl \<le> rs)
           \<and> (raw_rate (snapshot_of tied_rates) (exchange1 x) ''BTC''
                = raw_rate (snapshot_of tied_rates) (exchange2 x) ''BTC'' \<longrightarrow>
                 long_exchange x = exchange2 x \<and> short_exchange x = exchange1 x))"
    by (rule conjunct2)
  from this[rule_format, OF tied_opps, of ?x]
  have "raw_rate (snapshot_of tied_rates) (exchange1 ?x) ''BTC''
          = raw_rate (snapshot_of tied_rates) (exchange2 ?x) ''BTC'' \<longrightarrow>
        long_exchange ?x = exchange2 ?x \<and> short_exchange ?x = exchange1 ?x"
    by simp
  with e tied_raw_rates(1,2) have "long_exchange ?x = ''ex_b'' \<and> short_exchange ?x = ''ex_a''"
    by simp
  then show ?thesis
    using fetch_ok_response tied_distinct tied_in_double_range tied_opps tied_raw_rates e
    by simp
qed

end
